theory Spec2Isabelle
  imports Main "HOL-Library.AList" "HOL-Library.Sublist"
begin

section \<open>Values, rules and errors\<close>

text \<open>
  The code is dynamically typed Python running against the Revit API. A value is one of the
  shapes the collector inspects with \<open>isinstance\<close>: booleans, strings, floats, element ids,
  typed references that carry an \<open>Id\<close> (family symbols, levels, views), class and category
  handles, host filter objects (\<open>PFilter\<close>), and instances of the wrapper class
  \<open>ParameterFilter\<close>, which hold the host filter object they wrap (\<open>_revit_object\<close>). A float is kept as a decimal mantissa and
  exponent: the code never computes with it, it only passes it on.
  A keyword dictionary is an association list with distinct keys; its order is the order in
  which the dictionary is iterated.
\<close>

datatype pyval =
    PNone
  | PBool bool
  | PInt int
  | PFloat int int
  | PStr string
  | PElementId int
  | PFamilySymbol int
  | PLevel int
  | PView int
  | PDocument string
  | PType string
  | PBuiltInCategory string
  | PList "pyval list"
  | PDict "(string \<times> pyval) list"
  | PParameterFilter revit_filter
  | PFilter revit_filter
and filter_rule =
    FilterRule string pyval "pyval list"
  | FilterInverseRule filter_rule
and revit_filter =
    ElementParameterFilter "filter_rule list" pyval
  | FamilyInstanceFilter pyval pyval
  | ElementLevelFilter pyval bool

text \<open>
  Exceptions as values. \<open>RPW_Exception\<close> keeps the format string and the arguments given to
  \<open>format\<close>; \<open>RPW_TypeError\<close> keeps the expected description and the name of the actual
  type. \<open>KeyError\<close>, \<open>AttributeError\<close> and \<open>TypeError\<close> are the interpreter's own;
  \<open>LookupError\<close> is what a name resolver raises.
\<close>

datatype error =
    RPW_Exception string "pyval list"
  | RPW_TypeError string string
  | KeyError string
  | AttributeError string
  | TypeError string
  | LookupError string

type_synonym kwargs = "(string \<times> pyval) list"

text \<open>
  The name of \<open>type(v)\<close>, which \<open>RPW_TypeError\<close> receives. The type of a class handle such
  as \<open>DB.Wall\<close> is \<open>type\<close>; a host filter object has the class it was built from.
\<close>

fun type_name :: "pyval \<Rightarrow> string" where
  "type_name PNone = ''NoneType''"
| "type_name (PBool _) = ''bool''"
| "type_name (PInt _) = ''int''"
| "type_name (PFloat _ _) = ''float''"
| "type_name (PStr _) = ''str''"
| "type_name (PElementId _) = ''ElementId''"
| "type_name (PFamilySymbol _) = ''FamilySymbol''"
| "type_name (PLevel _) = ''Level''"
| "type_name (PView _) = ''View''"
| "type_name (PDocument _) = ''Document''"
| "type_name (PType _) = ''type''"
| "type_name (PBuiltInCategory _) = ''BuiltInCategory''"
| "type_name (PList _) = ''list''"
| "type_name (PDict _) = ''dict''"
| "type_name (PParameterFilter _) = ''ParameterFilter''"
| "type_name (PFilter (ElementParameterFilter _ _)) = ''ElementParameterFilter''"
| "type_name (PFilter (FamilyInstanceFilter _ _)) = ''FamilyInstanceFilter''"
| "type_name (PFilter (ElementLevelFilter _ _)) = ''ElementLevelFilter''"

fun is_str :: "pyval \<Rightarrow> bool" where
  "is_str (PStr _) = True"
| "is_str _ = False"

fun is_float :: "pyval \<Rightarrow> bool" where
  "is_float (PFloat _ _) = True"
| "is_float _ = False"

text \<open>\<open>d.get(k, default)\<close>.\<close>

definition dict_get :: "kwargs \<Rightarrow> string \<Rightarrow> pyval \<Rightarrow> pyval" where
  "dict_get d k dflt = (case map_of d k of Some v \<Rightarrow> v | None \<Rightarrow> dflt)"

section \<open>ParameterFilter\<close>

text \<open>The table \<open>ParameterFilter.RULES\<close>: condition name to rule factory method name.\<close>

definition RULES :: "(string \<times> string) list" where
  "RULES =
    [(''equals'', ''CreateEqualsRule''),
     (''not_equals'', ''CreateEqualsRule''),
     (''contains'', ''CreateContainsRule''),
     (''not_contains'', ''CreateContainsRule''),
     (''begins'', ''CreateBeginsWithRule''),
     (''not_begins'', ''CreateBeginsWithRule''),
     (''ends'', ''CreateEndsWithRule''),
     (''not_ends'', ''CreateEndsWithRule''),
     (''greater'', ''CreateGreaterRule''),
     (''not_greater'', ''CreateGreaterRule''),
     (''greater_equal'', ''CreateGreaterOrEqualRule''),
     (''not_greater_equal'', ''CreateGreaterOrEqualRule''),
     (''less'', ''CreateLessRule''),
     (''not_less'', ''CreateLessRule''),
     (''less_equal'', ''CreateLessOrEqualRule''),
     (''not_less_equal'', ''CreateLessOrEqualRule'')]"

definition CASE_SENSITIVE :: pyval where
  "CASE_SENSITIVE = PBool True"

definition FLOAT_PRECISION :: pyval where
  "FLOAT_PRECISION = PFloat 13020833333333 (- 16)"

text \<open>
  The validation loop of \<open>ParameterFilter.__init__\<close>: the first key, in iteration order,
  that is not a key of \<open>RULES\<close> raises.
\<close>

fun check_conditions :: "kwargs \<Rightarrow> error option" where
  "check_conditions [] = None"
| "check_conditions ((condition, v) # rest) =
    (if map_of RULES condition = None
     then Some (RPW_Exception ''Rule not valid: {}'' [PStr condition])
     else check_conditions rest)"

text \<open>
  The rule loop. The factory method is looked up by name and called with the parameter id
  and the argument list: the value, then the case flag when the value is a string, then
  the precision when it is a float. The call to the host's rule factory is kept as the
  term \<open>FilterRule factory parameter_id args\<close>. A name that contains \<open>not_\<close> has its rule
  wrapped in \<open>FilterInverseRule\<close>. \<open>RULES.get\<close> on a missing name gives \<open>None\<close>, on which
  \<open>getattr\<close> raises \<open>TypeError\<close>.
\<close>

fun build_rules :: "pyval \<Rightarrow> pyval \<Rightarrow> pyval \<Rightarrow> kwargs \<Rightarrow> error + filter_rule list" where
  "build_rules parameter_id case_sensitive precision [] = Inr []"
| "build_rules parameter_id case_sensitive precision ((condition_name, condition_value) # rest) =
    (case map_of RULES condition_name of
       None \<Rightarrow> Inl (TypeError ''getattr(): attribute name must be string'')
     | Some rule_factory_name \<Rightarrow>
        (let args = [condition_value]
                    @ (if is_str condition_value then [case_sensitive] else [])
                    @ (if is_float condition_value then [precision] else []);
             filter_rule = FilterRule rule_factory_name parameter_id args;
             filter_rule' = (if sublist ''not_'' condition_name
                             then FilterInverseRule filter_rule else filter_rule)
         in (case build_rules parameter_id case_sensitive precision rest of
               Inl e \<Rightarrow> Inl e
             | Inr rules \<Rightarrow> Inr (filter_rule' # rules))))"

definition ParameterFilter :: "pyval \<Rightarrow> kwargs \<Rightarrow> error + pyval" where
  "ParameterFilter parameter_id conditions =
    (let reverse = dict_get conditions ''reverse'' (PBool False);
         case_sensitive = dict_get conditions ''case_sensitive'' CASE_SENSITIVE;
         precision = dict_get conditions ''precision'' FLOAT_PRECISION
     in (case check_conditions conditions of
           Some e \<Rightarrow> Inl e
         | None \<Rightarrow>
            (case build_rules parameter_id case_sensitive precision conditions of
               Inl e \<Rightarrow> Inl e
             | Inr rules \<Rightarrow>
                (if rules = []
                 then Inl (RPW_Exception ''malformed filter rule: {}'' [PDict conditions])
                 else Inr (PParameterFilter (ElementParameterFilter rules reverse))))))"

section \<open>The element store\<close>

text \<open>
  Modelled from the spec: the Element Store Adapter (the host's \<open>FilteredElementCollector\<close>),
  the Enumeration Resolver (\<open>BicEnum.get\<close>, \<open>getattr(DB, name)\<close>) and the Identity Coercion
  (\<open>to_element_ids\<close>) are collaborators outside the source. They are taken as parameters,
  gathered in one record: the ambient document, the elements a freshly built adapter
  enumerates for each scope, the membership tests behind each narrowing operation, the
  truth of an atomic comparison rule on an element, and the three name and id services.
\<close>

datatype scope =
    DocScope pyval
  | ViewScope pyval pyval
  | IdsScope pyval pyval

record 'e host =
  revit_doc :: pyval
  scope_elements :: "scope \<Rightarrow> 'e list"
  has_class :: "string \<Rightarrow> 'e \<Rightarrow> bool"
  has_category :: "string \<Rightarrow> 'e \<Rightarrow> bool"
  is_element_type :: "'e \<Rightarrow> bool"
  view_independent :: "'e \<Rightarrow> bool"
  instance_of_symbol :: "pyval \<Rightarrow> pyval \<Rightarrow> 'e \<Rightarrow> bool"
  on_level :: "pyval \<Rightarrow> 'e \<Rightarrow> bool"
  rule_holds :: "string \<Rightarrow> pyval \<Rightarrow> pyval list \<Rightarrow> 'e \<Rightarrow> bool"
  BicEnum_get :: "string \<Rightarrow> error + pyval"
  DB_getattr :: "string \<Rightarrow> error + pyval"
  to_element_ids :: "pyval \<Rightarrow> error + pyval"

text \<open>
  Modelled from the spec: an inverse rule passes where its inner rule does not; a composite
  passes an element when all its rules pass, and its top-level flag inverts that; the level
  filter's flag inverts the membership test.
\<close>

fun rule_passes :: "'e host \<Rightarrow> filter_rule \<Rightarrow> 'e \<Rightarrow> bool" where
  "rule_passes h (FilterRule factory pid args) e = rule_holds h factory pid args e"
| "rule_passes h (FilterInverseRule r) e = (\<not> rule_passes h r e)"

fun filter_passes :: "'e host \<Rightarrow> revit_filter \<Rightarrow> 'e \<Rightarrow> bool" where
  "filter_passes h (ElementParameterFilter rules inverted) e =
     (list_all (\<lambda>r. rule_passes h r e) rules \<noteq> (inverted = PBool True))"
| "filter_passes h (FamilyInstanceFilter d symbol_id) e = instance_of_symbol h d symbol_id e"
| "filter_passes h (ElementLevelFilter level_id inverted) e = (on_level h level_id e \<noteq> inverted)"

text \<open>
  Modelled from the spec: a narrowing operation of the adapter, called by method name with
  an argument list. A well-formed call narrows the adapter in place to the elements that
  pass the operation's test; \<open>narrowing\<close> gives that test. A call whose arguments do not fit
  the method is refused by the host with \<open>TypeError\<close> and leaves the adapter as it was.
  The adapter's state is the list of elements it enumerates.
\<close>

fun type_arg :: "pyval list \<Rightarrow> string option" where
  "type_arg [PType t] = Some t"
| "type_arg _ = None"

fun category_arg :: "pyval list \<Rightarrow> string option" where
  "category_arg [PBuiltInCategory b] = Some b"
| "category_arg _ = None"

fun filter_arg :: "pyval list \<Rightarrow> revit_filter option" where
  "filter_arg [PFilter f] = Some f"
| "filter_arg _ = None"

definition narrowing :: "'e host \<Rightarrow> string \<Rightarrow> pyval list \<Rightarrow> ('e \<Rightarrow> bool) option" where
  "narrowing h meth args =
    (if meth = ''OfClass'' then map_option (has_class h) (type_arg args)
     else if meth = ''OfCategory'' then map_option (has_category h) (category_arg args)
     else if meth = ''WhereElementIsNotElementType''
       then (if args = [] then Some (\<lambda>e. \<not> is_element_type h e) else None)
     else if meth = ''WhereElementIsElementType''
       then (if args = [] then Some (is_element_type h) else None)
     else if meth = ''WhereElementIsViewIndependent''
       then (if args = [] then Some (view_independent h) else None)
     else if meth = ''WherePasses'' then map_option (filter_passes h) (filter_arg args)
     else None)"

definition invoke :: "'e host \<Rightarrow> string \<Rightarrow> pyval list \<Rightarrow> 'e list \<Rightarrow> error + 'e list" where
  "invoke h meth args c =
    (case narrowing h meth args of
       None \<Rightarrow> Inl (TypeError meth)
     | Some p \<Rightarrow> Inr (filter p c))"

section \<open>The filter chain\<close>

text \<open>The table \<open>_Filter.MAP\<close>: filter name to the adapter's method name.\<close>

definition MAP :: "(string \<times> string) list" where
  "MAP =
    [(''of_class'', ''OfClass''),
     (''of_category'', ''OfCategory''),
     (''is_not_type'', ''WhereElementIsNotElementType''),
     (''is_type'', ''WhereElementIsElementType''),
     (''is_view_independent'', ''WhereElementIsViewIndependent''),
     (''symbol'', ''WherePasses''),
     (''level'', ''WherePasses''),
     (''not_level'', ''WherePasses''),
     (''parameter_filter'', ''WherePasses'')]"

text \<open>\<open>d[k]\<close>: \<open>KeyError\<close> on a missing key.\<close>

definition getitem :: "(string \<times> 'a) list \<Rightarrow> string \<Rightarrow> error + 'a" where
  "getitem d k = (case map_of d k of None \<Rightarrow> Inl (KeyError k) | Some v \<Rightarrow> Inr v)"

fun is_bool :: "pyval \<Rightarrow> bool" where
  "is_bool (PBool _) = True"
| "is_bool _ = False"

text \<open>
  \<open>_FamilyInstanceFilter(symbol_or_id, doc).unwrap()\<close> and
  \<open>_ElementLevelFilter(level_or_id, reverse).unwrap()\<close>: the host filter built from an id or
  from the typed reference's \<open>Id\<close>; any other shape raises \<open>RPW_TypeError\<close>.
\<close>

fun rpw_FamilyInstanceFilter :: "pyval \<Rightarrow> pyval \<Rightarrow> error + pyval" where
  "rpw_FamilyInstanceFilter (PElementId i) d = Inr (PFilter (FamilyInstanceFilter d (PElementId i)))"
| "rpw_FamilyInstanceFilter (PFamilySymbol i) d = Inr (PFilter (FamilyInstanceFilter d (PElementId i)))"
| "rpw_FamilyInstanceFilter v d = Inl (RPW_TypeError ''FamilySymbol or FamilySymbol Id'' (type_name v))"

fun rpw_ElementLevelFilter :: "pyval \<Rightarrow> bool \<Rightarrow> error + pyval" where
  "rpw_ElementLevelFilter (PElementId i) reverse = Inr (PFilter (ElementLevelFilter (PElementId i) reverse))"
| "rpw_ElementLevelFilter (PLevel i) reverse = Inr (PFilter (ElementLevelFilter (PElementId i) reverse))"
| "rpw_ElementLevelFilter v reverse = Inl (RPW_TypeError ''Level or Level Id'' (type_name v))"

text \<open>
  One pass of the loop body of \<open>_Filter._chain\<close>, up to the call on the adapter. The method
  name is looked up in \<open>MAP\<close> first, so a name outside \<open>MAP\<close> raises \<open>KeyError\<close> there and
  the membership test that follows is never true. A boolean \<open>False\<close> under
  \<open>is_view_independent\<close> (or under any key but the two type keys) matches no branch: nothing
  is called and nothing is raised.
\<close>

definition apply_filter :: "'e host \<Rightarrow> pyval \<Rightarrow> string \<Rightarrow> pyval \<Rightarrow> 'e list \<Rightarrow> error + 'e list" where
  "apply_filter h collector_doc filter_name filter_value c =
    (case getitem MAP filter_name of
       Inl e \<Rightarrow> Inl e
     | Inr meth \<Rightarrow>
        (if map_of MAP filter_name = None
           then Inl (RPW_Exception ''collector filter rule does not exist: {}'' [PStr filter_name])
         else if is_bool filter_value then
           (if filter_value = PBool True then invoke h meth [] c
            else if filter_value = PBool False \<and> filter_name = ''is_type''
              then (case getitem MAP ''is_not_type'' of
                      Inl e \<Rightarrow> Inl e | Inr meth' \<Rightarrow> invoke h meth' [] c)
            else if filter_value = PBool False \<and> filter_name = ''is_not_type''
              then (case getitem MAP ''is_type'' of
                      Inl e \<Rightarrow> Inl e | Inr meth' \<Rightarrow> invoke h meth' [] c)
            else Inr c)
         else (case filter_value of
            PParameterFilter revit_object \<Rightarrow> invoke h meth [PFilter revit_object] c
          | _ \<Rightarrow>
           (if filter_name = ''symbol''
              then (case rpw_FamilyInstanceFilter filter_value collector_doc of
                      Inl e \<Rightarrow> Inl e | Inr f \<Rightarrow> invoke h meth [f] c)
            else if filter_name = ''level'' \<or> filter_name = ''not_level''
              then (let reverse = prefix ''not'' filter_name
                    in (case rpw_ElementLevelFilter filter_value reverse of
                          Inl e \<Rightarrow> Inl e | Inr f \<Rightarrow> invoke h meth [f] c))
            else if filter_name = ''of_class'' \<or> filter_name = ''of_category''
              then invoke h meth [filter_value] c
            else Inl (RPW_Exception ''unknown parameter filter error: {}:{}''
                        [PStr filter_name, filter_value])))))"

lemma length_delete_less:
  "map_of al k = Some v \<Longrightarrow> length (AList.delete k al) < length al"
proof (induction al)
  case Nil
  then show ?case by simp
next
  case (Cons p al)
  obtain k' v' where p: "p = (k', v')" by (cases p)
  show ?case
  proof (cases "k = k'")
    case True
    have "length (AList.delete k al) \<le> length al" by (rule length_delete_le)
    with True p show ?thesis by simp
  next
    case False
    with Cons p show ?thesis by simp
  qed
qed

text \<open>
  \<open>_Filter._chain\<close>. The loop runs over the items of \<open>filters\<close>; \<open>filter_stack\<close> starts as a copy
  of \<open>filters\<close>, loses the current name after each step (\<open>pop\<close> raises \<open>KeyError\<close> on a missing
  name) and is what the recursive call receives. The adapter is one mutable object, so its
  state is threaded through, and is returned also when an exception leaves the loop.
\<close>

function chain_loop ::
  "'e host \<Rightarrow> pyval \<Rightarrow> kwargs \<Rightarrow> kwargs \<Rightarrow> 'e list \<Rightarrow> error option \<times> 'e list"
where
  "chain_loop h d [] filter_stack c = (None, c)"
| "chain_loop h d ((filter_name, filter_value) # rest) filter_stack c =
    (case apply_filter h d filter_name filter_value c of
       Inl e \<Rightarrow> (Some e, c)
     | Inr c1 \<Rightarrow>
        (case map_of filter_stack filter_name of
           None \<Rightarrow> (Some (KeyError filter_name), c1)
         | Some _ \<Rightarrow>
            (case chain_loop h d (AList.delete filter_name filter_stack)
                               (AList.delete filter_name filter_stack) c1 of
               (Some e, c2) \<Rightarrow> (Some e, c2)
             | (None, c2) \<Rightarrow> chain_loop h d rest (AList.delete filter_name filter_stack) c2)))"
  by pat_completeness auto

termination
  by (relation "measure (\<lambda>(h, d, items, filter_stack, c). length filter_stack)")
     (simp_all add: length_delete_less)

definition chain :: "'e host \<Rightarrow> pyval \<Rightarrow> kwargs \<Rightarrow> 'e list \<Rightarrow> error option \<times> 'e list" where
  "chain h d fs c = chain_loop h d fs fs c"

text \<open>
  \<open>_Filter._coerce_filter_values\<close>: a non-empty string under \<open>of_category\<close> is replaced by
  what \<open>BicEnum.get\<close> returns for it, a non-empty string under \<open>of_class\<close> by the attribute of
  \<open>DB\<close> with that name. Either lookup may raise.
\<close>

fun str_name :: "pyval \<Rightarrow> string option" where
  "str_name (PStr s) = (if s = [] then None else Some s)"
| "str_name _ = None"

definition coerce_filter_values :: "'e host \<Rightarrow> kwargs \<Rightarrow> error + kwargs" where
  "coerce_filter_values h kw =
    (let category_name = dict_get kw ''of_category'' PNone
     in (case (case str_name category_name of
                 None \<Rightarrow> Inr kw
               | Some s \<Rightarrow>
                  (case BicEnum_get h s of
                     Inl e \<Rightarrow> Inl e
                   | Inr v \<Rightarrow> Inr (AList.update ''of_category'' v kw))) of
           Inl e \<Rightarrow> Inl e
         | Inr kw1 \<Rightarrow>
            (let class_name = dict_get kw1 ''of_class'' PNone
             in (case str_name class_name of
                   None \<Rightarrow> Inr kw1
                 | Some s \<Rightarrow>
                    (case DB_getattr h s of
                       Inl e \<Rightarrow> Inl e
                     | Inr v \<Rightarrow> Inr (AList.update ''of_class'' v kw1))))))"

section \<open>Collector\<close>

text \<open>
  The state of a \<open>Collector\<close>: the wrapped adapter (\<open>_revit_object\<close>, as the list of elements
  it enumerates now), the document, the cached list \<open>elements\<close> and the cumulative filter
  dictionary \<open>_filters\<close>.
\<close>

record 'e collector =
  revit_object :: "'e list"
  collector_doc :: pyval
  elements :: "'e list"
  filters :: kwargs

text \<open>
  \<open>_Filter.__call__\<close>: coerce the keyword values, write each pair into the stored dictionary
  (a present key keeps its place, a new key goes last), run the chain over the stored
  dictionary on the wrapped adapter, and enumerate the adapter into \<open>elements\<close>. An exception
  leaves the object as it is at that point.
\<close>

definition filter_call :: "'e host \<Rightarrow> kwargs \<Rightarrow> 'e collector \<Rightarrow> error option \<times> 'e collector" where
  "filter_call h kw self =
    (case coerce_filter_values h kw of
       Inl e \<Rightarrow> (Some e, self)
     | Inr kw' \<Rightarrow>
        (let self1 = self\<lparr>filters := fold (\<lambda>(key, v). AList.update key v) kw' (filters self)\<rparr>
         in (case chain h (collector_doc self1) (filters self1) (revit_object self1) of
               (Some e, c) \<Rightarrow> (Some e, self1\<lparr>revit_object := c\<rparr>)
             | (None, c) \<Rightarrow> (None, self1\<lparr>revit_object := c, elements := c\<rparr>))))"

text \<open>
  The scope part of \<open>Collector.__init__\<close>: \<open>doc\<close> is popped when present; then exactly one
  of \<open>view\<close>, \<open>elements\<close>, \<open>element_ids\<close> is popped, the first present in that order, and
  the adapter is built for it. A view is an element id or anything with an \<open>Id\<close>.
  The result is the document, the scope the adapter is built for and the keywords left.
\<close>

fun get_Id :: "pyval \<Rightarrow> error + pyval" where
  "get_Id (PView i) = Inr (PElementId i)"
| "get_Id (PLevel i) = Inr (PElementId i)"
| "get_Id (PFamilySymbol i) = Inr (PElementId i)"
| "get_Id v = Inl (AttributeError ''Id'')"

fun is_ElementId :: "pyval \<Rightarrow> bool" where
  "is_ElementId (PElementId _) = True"
| "is_ElementId _ = False"

definition resolve_scope :: "'e host \<Rightarrow> kwargs \<Rightarrow> error + (pyval \<times> scope \<times> kwargs)" where
  "resolve_scope h kw =
    (let d = (case map_of kw ''doc'' of Some v \<Rightarrow> v | None \<Rightarrow> revit_doc h);
         kw1 = (case map_of kw ''doc'' of Some v \<Rightarrow> AList.delete ''doc'' kw | None \<Rightarrow> kw)
     in (case map_of kw1 ''view'' of
           Some view \<Rightarrow>
            (case (if is_ElementId view then Inr view else get_Id view) of
               Inl e \<Rightarrow> Inl e
             | Inr view_id \<Rightarrow> Inr (d, ViewScope d view_id, AList.delete ''view'' kw1))
         | None \<Rightarrow>
            (case map_of kw1 ''elements'' of
               Some els \<Rightarrow>
                (case to_element_ids h els of
                   Inl e \<Rightarrow> Inl e
                 | Inr element_ids \<Rightarrow> Inr (d, IdsScope d element_ids, AList.delete ''elements'' kw1))
             | None \<Rightarrow>
                (case map_of kw1 ''element_ids'' of
                   Some element_ids \<Rightarrow>
                     Inr (d, IdsScope d element_ids, AList.delete ''element_ids'' kw1)
                 | None \<Rightarrow> Inr (d, DocScope d, kw1)))))"

text \<open>The key check of \<open>Collector.__init__\<close> on the keywords left after the scope.\<close>

fun check_filters :: "kwargs \<Rightarrow> error option" where
  "check_filters [] = None"
| "check_filters ((key, v) # rest) =
    (if map_of MAP key = None
     then Some (RPW_Exception ''Collector Filter not valid: {}'' [PStr key])
     else check_filters rest)"

text \<open>
  \<open>Collector.__init__\<close>: resolve the scope, build the adapter, check the keys, store the
  filters, and call the filter when there is at least one.
\<close>

definition Collector :: "'e host \<Rightarrow> kwargs \<Rightarrow> error + 'e collector" where
  "Collector h kw =
    (case resolve_scope h kw of
       Inl e \<Rightarrow> Inl e
     | Inr (d, sc, kw') \<Rightarrow>
        (case check_filters kw' of
           Some e \<Rightarrow> Inl e
         | None \<Rightarrow>
            (let self = \<lparr>revit_object = scope_elements h sc, collector_doc = d,
                         elements = [], filters = kw'\<rparr>
             in (if kw' \<noteq> []
                 then (case filter_call h kw' self of
                         (Some e, _) \<Rightarrow> Inl e
                       | (None, self') \<Rightarrow> Inr self')
                 else Inr self))))"

text \<open>
  The read views: \<open>__iter__\<close> enumerates the wrapped adapter; \<open>first\<close>, \<open>__bool__\<close> and
  \<open>__len__\<close> read the cached list.
\<close>

definition collector_iter :: "'e collector \<Rightarrow> 'e list" where
  "collector_iter self = revit_object self"

definition first :: "'e collector \<Rightarrow> 'e option" where
  "first self = (case elements self of [] \<Rightarrow> None | x # _ \<Rightarrow> Some x)"

definition collector_bool :: "'e collector \<Rightarrow> bool" where
  "collector_bool self = (elements self \<noteq> [])"

definition collector_len :: "'e collector \<Rightarrow> nat" where
  "collector_len self = length (elements self)"

text \<open>What a construction yields as its result set: the exception, or the cached list.\<close>

definition ResultSet :: "error + 'e collector \<Rightarrow> error + 'e list" where
  "ResultSet r = map_sum id elements r"

section \<open>A small store to run the code on\<close>

text \<open>
  Six elements, numbered 1 to 6. The document enumerates all of them, any view the first
  three, any id list the elements 4 and 5. Elements up to 4 are walls, even elements are
  element types, element 3 is an instance of symbol 7, elements up to 3 sit on level 9, and
  an equals-rule holds on the element whose number is the compared integer.
\<close>

definition demo_host :: "nat host" where
  "demo_host =
    \<lparr>revit_doc = PDocument ''active'',
     scope_elements = (\<lambda>sc. case sc of DocScope _ \<Rightarrow> [1, 2, 3, 4, 5, 6]
                                 | ViewScope _ _ \<Rightarrow> [1, 2, 3]
                                 | IdsScope _ _ \<Rightarrow> [4, 5]),
     has_class = (\<lambda>t e. t = ''Wall'' \<and> e \<le> 4),
     has_category = (\<lambda>b e. b = ''OST_Walls'' \<and> 2 \<le> e),
     is_element_type = (\<lambda>e. even e),
     view_independent = (\<lambda>e. e \<le> 1),
     instance_of_symbol = (\<lambda>d s e. s = PElementId 7 \<and> e = 3),
     on_level = (\<lambda>l e. l = PElementId 9 \<and> e \<le> 3),
     rule_holds = (\<lambda>f p args e. f = ''CreateEqualsRule'' \<and> args = [PInt (int e)]),
     BicEnum_get = (\<lambda>s. if s = ''OST_Walls'' then Inr (PBuiltInCategory s)
                         else Inl (LookupError s)),
     DB_getattr = (\<lambda>s. if s = ''Wall'' then Inr (PType s) else Inl (AttributeError s)),
     to_element_ids = (\<lambda>v. Inr v)\<rparr>"

text \<open>The collector \<open>Collector()\<close> builds on that store: no filters, nothing cached.\<close>

definition empty_collector :: "nat collector" where
  "empty_collector =
    \<lparr>revit_object = [1, 2, 3, 4, 5, 6], collector_doc = PDocument ''active'',
     elements = [], filters = []\<rparr>"

text \<open>The collector \<open>Collector(of_class='Wall')\<close> builds on that store.\<close>

definition wall_collector :: "nat collector" where
  "wall_collector =
    \<lparr>revit_object = [1, 2, 3, 4], collector_doc = PDocument ''active'',
     elements = [1, 2, 3, 4], filters = [(''of_class'', PType ''Wall'')]\<rparr>"

text \<open>The collector \<open>Collector(view=v)\<close> builds on that store: a scope and no filters.\<close>

definition view_collector :: "nat collector" where
  "view_collector =
    \<lparr>revit_object = [1, 2, 3], collector_doc = PDocument ''active'',
     elements = [], filters = []\<rparr>"

text \<open>What \<open>.filter(is_type=True)\<close> makes of \<open>Collector(of_class='Wall')\<close>.\<close>

definition wall_types_collector :: "nat collector" where
  "wall_types_collector =
    \<lparr>revit_object = [2, 4], collector_doc = PDocument ''active'',
     elements = [2, 4],
     filters = [(''of_class'', PType ''Wall''), (''is_type'', PBool True)]\<rparr>"

text \<open>Shapes of values, as \<open>isinstance\<close> sees them, and the class of a raised exception.\<close>

fun is_ParameterFilter :: "pyval \<Rightarrow> bool" where
  "is_ParameterFilter (PParameterFilter _) = True"
| "is_ParameterFilter _ = False"

fun is_FamilySymbol :: "pyval \<Rightarrow> bool" where
  "is_FamilySymbol (PFamilySymbol _) = True"
| "is_FamilySymbol _ = False"

fun is_Level :: "pyval \<Rightarrow> bool" where
  "is_Level (PLevel _) = True"
| "is_Level _ = False"

fun is_Type :: "pyval \<Rightarrow> bool" where
  "is_Type (PType _) = True"
| "is_Type _ = False"

fun is_BuiltInCategory :: "pyval \<Rightarrow> bool" where
  "is_BuiltInCategory (PBuiltInCategory _) = True"
| "is_BuiltInCategory _ = False"

text \<open>
  A pair \<open>(k, v)\<close> is rejected with \<open>e\<close>: the loop body raises \<open>e\<close> on it whatever the
  adapter holds, the chain over a dictionary that starts with the pair raises \<open>e\<close> and
  leaves the adapter as it was, and the constructor given the pair alone raises \<open>e\<close>.
\<close>

definition rejects ::
  "'e host \<Rightarrow> pyval \<Rightarrow> kwargs \<Rightarrow> 'e list \<Rightarrow> string \<Rightarrow> pyval \<Rightarrow> error \<Rightarrow> bool" where
  "rejects h d rest c k v e =
    (apply_filter h d k v c = Inl e
     \<and> chain h d ((k, v) # rest) c = (Some e, c)
     \<and> Collector h [(k, v)] = Inl e)"

definition raises_RPW_TypeError :: "error + 'a \<Rightarrow> bool" where
  "raises_RPW_TypeError r = (case r of Inl (RPW_TypeError _ _) \<Rightarrow> True | _ \<Rightarrow> False)"

text \<open>
  The eight comparison conditions without prefix, and the argument list the rule loop
  hands to the factory for a value under the default options.
\<close>

definition comparison_names :: "string list" where
  "comparison_names = [''equals'', ''contains'', ''begins'', ''ends'', ''greater'',
     ''greater_equal'', ''less'', ''less_equal'']"

definition rule_args :: "pyval \<Rightarrow> pyval list" where
  "rule_args V = [V] @ (if is_str V then [CASE_SENSITIVE] else [])
                     @ (if is_float V then [FLOAT_PRECISION] else [])"

text \<open>
  The condition vocabulary in the spec's words. A condition name is one of the eight
  comparison names, optionally prefixed with \<open>not_\<close>; \<open>base_name\<close> strips the prefix and
  \<open>factory_of\<close> is the factory the table gives for an unprefixed name (the empty name when
  it has none). \<open>spec_rule\<close> is the rule the spec asks for one condition: the atomic rule of
  the base comparison, wrapped in an inversion exactly when the name has the prefix.
  \<open>composite_passes\<close> reads the predicate of a constructed \<open>ParameterFilter\<close> on an element.
\<close>

definition base_name :: "string \<Rightarrow> string" where
  "base_name name = (if prefix ''not_'' name then drop 4 name else name)"

definition factory_of :: "string \<Rightarrow> string" where
  "factory_of base = (case map_of RULES base of Some f \<Rightarrow> f | None \<Rightarrow> [])"

definition spec_rule :: "pyval \<Rightarrow> string \<times> pyval \<Rightarrow> filter_rule" where
  "spec_rule pid cond =
    (let atomic = FilterRule (factory_of (base_name (fst cond))) pid (rule_args (snd cond))
     in if prefix ''not_'' (fst cond) then FilterInverseRule atomic else atomic)"

definition valid_conditions :: "kwargs \<Rightarrow> bool" where
  "valid_conditions conds = list_all (\<lambda>cond. base_name (fst cond) \<in> set comparison_names) conds"

definition composite_passes :: "'e host \<Rightarrow> error + pyval \<Rightarrow> 'e \<Rightarrow> bool option" where
  "composite_passes h r e =
    (case r of Inr (PParameterFilter f) \<Rightarrow> Some (filter_passes h f e) | _ \<Rightarrow> None)"

definition all_names :: "string list" where
  "all_names = comparison_names @ map ((@) ''not_'') comparison_names"

text \<open>
  The filters applied one after another, each once, stopping at the first exception. For a
  dictionary (distinct keys) the chain computes the same, as is proved below.
\<close>

fun run_items :: "'e host \<Rightarrow> pyval \<Rightarrow> kwargs \<Rightarrow> 'e list \<Rightarrow> error option \<times> 'e list" where
  "run_items h d [] c = (None, c)"
| "run_items h d ((n, v) # rest) c =
    (case apply_filter h d n v c of
       Inl e \<Rightarrow> (Some e, c)
     | Inr c1 \<Rightarrow> run_items h d rest c1)"

text \<open>Writing the pairs of one dictionary into another, as the loop of \<open>__call__\<close> does.\<close>

definition merge :: "kwargs \<Rightarrow> kwargs \<Rightarrow> kwargs" where
  "merge kw fs = fold (\<lambda>(key, v). AList.update key v) kw fs"

text \<open>
  One of the two steps of the coercion, for one key and one name resolver; and the keys the
  constructor and the coercion look at: the scope keys and the two coerced keys.
\<close>

definition coerce_key :: "(string \<Rightarrow> error + pyval) \<Rightarrow> string \<Rightarrow> kwargs \<Rightarrow> error + kwargs" where
  "coerce_key resolver key kw =
    (case str_name (dict_get kw key PNone) of
       None \<Rightarrow> Inr kw
     | Some s \<Rightarrow>
        (case resolver s of
           Inl e \<Rightarrow> Inl e
         | Inr v \<Rightarrow> Inr (AList.update key v kw)))"

definition special_keys :: "string set" where
  "special_keys = {''doc'', ''view'', ''elements'', ''element_ids'', ''of_category'', ''of_class''}"

text \<open>A dictionary with one pair replaced by another, in place.\<close>

definition rename :: "string \<times> pyval \<Rightarrow> string \<times> pyval \<Rightarrow> kwargs \<Rightarrow> kwargs" where
  "rename a b kw = map (\<lambda>p. if p = a then b else p) kw"

section \<open>Basic facts\<close>

lemma coerce_single:
  "str_name v = None \<or> (k \<noteq> ''of_category'' \<and> k \<noteq> ''of_class'') \<Longrightarrow>
     coerce_filter_values h [(k, v)] = Inr [(k, v)]"
  by (auto simp add: coerce_filter_values_def dict_get_def)

lemma MAP_facts:
  "map_of MAP ''of_class'' = Some ''OfClass''"
  "map_of MAP ''of_category'' = Some ''OfCategory''"
  "map_of MAP ''is_not_type'' = Some ''WhereElementIsNotElementType''"
  "map_of MAP ''is_type'' = Some ''WhereElementIsElementType''"
  "map_of MAP ''is_view_independent'' = Some ''WhereElementIsViewIndependent''"
  "map_of MAP ''symbol'' = Some ''WherePasses''"
  "map_of MAP ''level'' = Some ''WherePasses''"
  "map_of MAP ''not_level'' = Some ''WherePasses''"
  "map_of MAP ''parameter_filter'' = Some ''WherePasses''"
  by (simp_all add: MAP_def)

lemma rejectsI:
  assumes m: "map_of MAP k = Some m"
    and s: "str_name v = None \<or> (k \<noteq> ''of_category'' \<and> k \<noteq> ''of_class'')"
    and a: "\<And>d c. apply_filter h d k v c = Inl e"
  shows "rejects h d rest c k v e"
proof -
  have ks: "k \<noteq> ''doc''" "k \<noteq> ''view''" "k \<noteq> ''elements''" "k \<noteq> ''element_ids''"
    using m by (auto simp add: MAP_def)
  have rs: "resolve_scope h [(k, v)] = Inr (revit_doc h, DocScope (revit_doc h), [(k, v)])"
    using ks by (simp add: resolve_scope_def Let_def)
  have ch: "chain h d' ((k, v) # rest') c' = (Some e, c')" for d' rest' c'
    by (simp add: chain_def a)
  have co: "Collector h [(k, v)] = Inl e"
    using m by (simp add: Collector_def rs filter_call_def coerce_single[OF s] ch)
  show ?thesis
    by (simp add: rejects_def a ch co)
qed

text \<open>The loop body on a value that is neither a boolean nor a \<open>ParameterFilter\<close>.\<close>

lemma other_step:
  assumes "\<not> is_bool v" "\<not> is_ParameterFilter v" "map_of MAP n = Some meth"
  shows "apply_filter h d n v c =
    (if n = ''symbol''
       then (case rpw_FamilyInstanceFilter v d of
               Inl e \<Rightarrow> Inl e | Inr f \<Rightarrow> invoke h meth [f] c)
     else if n = ''level'' \<or> n = ''not_level''
       then (case rpw_ElementLevelFilter v (prefix ''not'' n) of
               Inl e \<Rightarrow> Inl e | Inr f \<Rightarrow> invoke h meth [f] c)
     else if n = ''of_class'' \<or> n = ''of_category''
       then invoke h meth [v] c
     else Inl (RPW_Exception ''unknown parameter filter error: {}:{}'' [PStr n, v]))"
  using assms by (cases v) (simp_all add: apply_filter_def getitem_def Let_def)

lemma symbol_step:
  assumes "\<not> is_bool v" "\<not> is_ParameterFilter v" "\<not> is_ElementId v" "\<not> is_FamilySymbol v"
  shows "apply_filter h d ''symbol'' v c
        = Inl (RPW_TypeError ''FamilySymbol or FamilySymbol Id'' (type_name v))"
  using assms by (cases v) (simp_all add: other_step[OF _ _ MAP_facts(6)])

lemma level_step:
  assumes "\<not> is_bool v" "\<not> is_ParameterFilter v" "\<not> is_ElementId v" "\<not> is_Level v"
  shows "apply_filter h d ''level'' v c
        = Inl (RPW_TypeError ''Level or Level Id'' (type_name v))"
    and "apply_filter h d ''not_level'' v c
        = Inl (RPW_TypeError ''Level or Level Id'' (type_name v))"
  using assms
  by (cases v; simp add: other_step[OF _ _ MAP_facts(7)] other_step[OF _ _ MAP_facts(8)])+

lemma fallthrough_step:
  assumes "\<not> is_bool v" "\<not> is_ParameterFilter v"
  shows "apply_filter h d ''parameter_filter'' v c
        = Inl (RPW_Exception ''unknown parameter filter error: {}:{}''
                 [PStr ''parameter_filter'', v])"
    and "apply_filter h d ''is_type'' v c
        = Inl (RPW_Exception ''unknown parameter filter error: {}:{}'' [PStr ''is_type'', v])"
    and "apply_filter h d ''is_not_type'' v c
        = Inl (RPW_Exception ''unknown parameter filter error: {}:{}''
                 [PStr ''is_not_type'', v])"
    and "apply_filter h d ''is_view_independent'' v c
        = Inl (RPW_Exception ''unknown parameter filter error: {}:{}''
                 [PStr ''is_view_independent'', v])"
  using assms
  by (simp_all add: other_step[OF _ _ MAP_facts(9)] other_step[OF _ _ MAP_facts(4)]
        other_step[OF _ _ MAP_facts(3)] other_step[OF _ _ MAP_facts(5)])

lemma host_step:
  assumes "\<not> is_bool v" "\<not> is_ParameterFilter v"
  shows "\<not> is_Type v \<Longrightarrow> apply_filter h d ''of_class'' v c = Inl (TypeError ''OfClass'')"
    and "\<not> is_BuiltInCategory v \<Longrightarrow>
           apply_filter h d ''of_category'' v c = Inl (TypeError ''OfCategory'')"
  using assms
  by (cases v; simp add: other_step[OF _ _ MAP_facts(1)] other_step[OF _ _ MAP_facts(2)]
        invoke_def narrowing_def)+

lemma filter_call_iter:
  "filter_call h kw c = (None, c') \<Longrightarrow> revit_object c' = elements c'"
  by (auto simp add: filter_call_def Let_def split: sum.splits prod.splits option.splits)

text \<open>
  Every call on the adapter that returns narrows it to the elements that pass a test which
  does not depend on the adapter's state; so does every pass of the loop body, and every
  run over a list of filters. A run that returns changes nothing when repeated.
\<close>

lemma invoke_uniform:
  "invoke h m a c = Inr c1 \<Longrightarrow> \<exists>p. \<forall>c'. invoke h m a c' = Inr (filter p c')"
  by (auto simp add: invoke_def split: option.splits)

lemma keep_uniform: "\<exists>p. \<forall>c'::'a list. (Inr c' :: error + 'a list) = Inr (filter p c')"
  by (rule exI[of _ "\<lambda>_. True"]) simp

lemma bool_step:
  "apply_filter h d n (PBool b) c =
    (case map_of MAP n of
       None \<Rightarrow> Inl (KeyError n)
     | Some meth \<Rightarrow>
        (if b then invoke h meth [] c
         else if n = ''is_type'' then invoke h ''WhereElementIsNotElementType'' [] c
         else if n = ''is_not_type'' then invoke h ''WhereElementIsElementType'' [] c
         else Inr c))"
  by (simp add: apply_filter_def getitem_def MAP_facts split: option.split)

lemma filter_step:
  "apply_filter h d n (PParameterFilter f) c =
    (case map_of MAP n of
       None \<Rightarrow> Inl (KeyError n)
     | Some meth \<Rightarrow> invoke h meth [PFilter f] c)"
  by (simp add: apply_filter_def getitem_def split: option.split)

lemma uniform_via:
  assumes "\<And>c'. f c' = invoke h m a c'" and "f c = Inr c1"
  shows "\<exists>p. \<forall>c'. f c' = Inr (filter p c')"
proof -
  from assms have "invoke h m a c = Inr c1" by simp
  from invoke_uniform[OF this] assms(1) show ?thesis by simp
qed

lemma uniform_keep:
  assumes "\<And>c'. f c' = Inr c'"
  shows "\<exists>p. \<forall>c'::'a list. (f c' :: error + 'a list) = Inr (filter p c')"
  using assms by (intro exI[of _ "\<lambda>_. True"]) simp

lemma apply_filter_uniform_bool:
  assumes "apply_filter h d n (PBool b) c = Inr c1"
  shows "\<exists>p. \<forall>c'. apply_filter h d n (PBool b) c' = Inr (filter p c')"
proof (cases "map_of MAP n")
  case None
  with assms show ?thesis by (simp add: bool_step)
next
  case (Some meth)
  consider (t) "b" | (it) "\<not> b" "n = ''is_type''" | (nt) "\<not> b" "n \<noteq> ''is_type''" "n = ''is_not_type''"
    | (o) "\<not> b" "n \<noteq> ''is_type''" "n \<noteq> ''is_not_type''" by blast
  then show ?thesis
  proof cases
    case t
    have "\<And>c'. apply_filter h d n (PBool b) c' = invoke h meth [] c'"
      using t Some by (simp add: bool_step)
    from uniform_via[OF this assms] show ?thesis .
  next
    case it
    have "\<And>c'. apply_filter h d n (PBool b) c' = invoke h ''WhereElementIsNotElementType'' [] c'"
      using it Some by (simp add: bool_step)
    from uniform_via[OF this assms] show ?thesis .
  next
    case nt
    have "\<And>c'. apply_filter h d n (PBool b) c' = invoke h ''WhereElementIsElementType'' [] c'"
      using nt Some by (simp add: bool_step)
    from uniform_via[OF this assms] show ?thesis .
  next
    case o
    have "\<And>c'. apply_filter h d n (PBool b) c' = Inr c'"
      using o Some by (simp add: bool_step)
    from uniform_keep[OF this] show ?thesis .
  qed
qed

lemma apply_filter_uniform_other:
  assumes nb: "\<not> is_bool v" "\<not> is_ParameterFilter v"
    and a: "apply_filter h d n v c = Inr c1"
  shows "\<exists>p. \<forall>c'. apply_filter h d n v c' = Inr (filter p c')"
proof (cases "map_of MAP n")
  case None
  with a show ?thesis by (simp add: apply_filter_def getitem_def)
next
  case (Some meth)
  note st = other_step[OF nb Some]
  consider (s) "n = ''symbol''"
    | (l) "n \<noteq> ''symbol''" "n = ''level'' \<or> n = ''not_level''"
    | (c) "n \<noteq> ''symbol''" "\<not> (n = ''level'' \<or> n = ''not_level'')"
          "n = ''of_class'' \<or> n = ''of_category''"
    | (o) "n \<noteq> ''symbol''" "\<not> (n = ''level'' \<or> n = ''not_level'')"
          "\<not> (n = ''of_class'' \<or> n = ''of_category'')"
    by blast
  then show ?thesis
  proof cases
    case s
    show ?thesis
    proof (cases "rpw_FamilyInstanceFilter v d")
      case (Inl e)
      have "apply_filter h d n v c = Inl e" unfolding st using s Inl by simp
      with a show ?thesis by simp
    next
      case (Inr f)
      have "\<And>c'. apply_filter h d n v c' = invoke h meth [f] c'"
        unfolding st using s Inr by simp
      from uniform_via[OF this a] show ?thesis .
    qed
  next
    case l
    show ?thesis
    proof (cases "rpw_ElementLevelFilter v (prefix ''not'' n)")
      case (Inl e)
      have "apply_filter h d n v c = Inl e" unfolding st using l Inl by simp
      with a show ?thesis by simp
    next
      case (Inr f)
      have "\<And>c'. apply_filter h d n v c' = invoke h meth [f] c'"
        unfolding st using l Inr by simp
      from uniform_via[OF this a] show ?thesis .
    qed
  next
    case c
    have "\<And>c'. apply_filter h d n v c' = invoke h meth [v] c'"
      unfolding st using c by simp
    from uniform_via[OF this a] show ?thesis .
  next
    case o
    have "apply_filter h d n v c
        = Inl (RPW_Exception ''unknown parameter filter error: {}:{}'' [PStr n, v])"
      unfolding st using o by simp
    with a show ?thesis by simp
  qed
qed

lemma apply_filter_uniform:
  assumes "apply_filter h d n v c = Inr c1"
  shows "\<exists>p. \<forall>c'. apply_filter h d n v c' = Inr (filter p c')"
proof (cases "is_bool v \<or> is_ParameterFilter v")
  case True
  then show ?thesis
  proof (cases v)
    case (PBool b)
    with assms apply_filter_uniform_bool show ?thesis by blast
  next
    case (PParameterFilter f)
    show ?thesis
    proof (cases "map_of MAP n")
      case None
      with assms PParameterFilter show ?thesis by (simp add: filter_step)
    next
      case (Some meth)
      have "\<And>c'. apply_filter h d n v c' = invoke h meth [PFilter f] c'"
        using PParameterFilter Some by (simp add: filter_step)
      from uniform_via[OF this assms] show ?thesis .
    qed
  qed simp_all
next
  case False
  with assms apply_filter_uniform_other show ?thesis by blast
qed

lemma run_items_uniform:
  "run_items h d fs c = (None, c2) \<Longrightarrow>
     \<exists>p. \<forall>c'. run_items h d fs c' = (None, filter p c')"
proof (induction fs arbitrary: c c2)
  case Nil
  show ?case by (intro exI[of _ "\<lambda>_. True"]) simp
next
  case (Cons nv fs)
  obtain n v where nv: "nv = (n, v)" by (cases nv)
  from Cons.prems nv obtain c1 where s: "apply_filter h d n v c = Inr c1"
    and r: "run_items h d fs c1 = (None, c2)"
    by (auto split: sum.splits)
  from apply_filter_uniform[OF s] obtain p where p: "\<And>c'. apply_filter h d n v c' = Inr (filter p c')"
    by blast
  from Cons.IH[OF r] obtain q where q: "\<And>c'. run_items h d fs c' = (None, filter q c')"
    by blast
  have "\<And>c'. run_items h d (nv # fs) c' = (None, filter (\<lambda>x. p x \<and> q x) c')"
    by (simp add: nv p q conj_commute)
  then show ?case by blast
qed

lemma run_items_idem:
  assumes "run_items h d fs c = (None, c2)"
  shows "run_items h d fs c2 = (None, c2)"
proof -
  from run_items_uniform[OF assms] obtain p
    where p: "\<And>c'. run_items h d fs c' = (None, filter p c')" by blast
  from assms p[of c] have "c2 = filter p c" by simp
  with p[of c2] show ?thesis by simp
qed

lemma chain_run:
  "distinct (map fst fs) \<Longrightarrow> chain_loop h d fs fs c = run_items h d fs c"
proof (induction fs arbitrary: c)
  case Nil
  show ?case by simp
next
  case (Cons nv fs)
  obtain n v where nv: "nv = (n, v)" by (cases nv)
  from Cons.prems nv have n: "n \<notin> fst ` set fs" and ds: "distinct (map fst fs)" by simp_all
  have del: "AList.delete n (nv # fs) = fs" using n nv by simp
  have look: "map_of (nv # fs) n = Some v" using nv by simp
  show ?case
  proof (cases "apply_filter h d n v c")
    case (Inl e)
    then show ?thesis by (simp add: nv)
  next
    case (Inr c1)
    obtain r c2 where rc: "run_items h d fs c1 = (r, c2)" by (cases "run_items h d fs c1")
    show ?thesis
    proof (cases r)
      case None
      with rc have "run_items h d fs c2 = (None, c2)" using run_items_idem by blast
      with rc None Inr show ?thesis
        using Cons.IH[OF ds] del look by (simp add: nv)
    next
      case (Some e)
      with rc Inr show ?thesis
        using Cons.IH[OF ds] del look by (simp add: nv)
    qed
  qed
qed

text \<open>
  Merging a dictionary twice is merging it once; coercion keeps the keys and their order.
\<close>

lemma merge_simps:
  "merge [] fs = fs"
  "merge ((k, v) # kw) fs = merge kw (AList.update k v fs)"
  by (simp_all add: merge_def)

lemma merge_lookup_other:
  "k \<notin> fst ` set kw \<Longrightarrow> map_of (merge kw fs) k = map_of fs k"
proof (induction kw arbitrary: fs)
  case Nil
  show ?case by (simp add: merge_simps)
next
  case (Cons p kw)
  obtain a b where p: "p = (a, b)" by (cases p)
  from Cons.prems p have "k \<noteq> a" "k \<notin> fst ` set kw" by auto
  with Cons.IH[of "AList.update a b fs"] p show ?case
    by (simp add: merge_simps update_conv')
qed

lemma merge_lookup:
  "distinct (map fst kw) \<Longrightarrow> (k, v) \<in> set kw \<Longrightarrow> map_of (merge kw fs) k = Some v"
proof (induction kw arbitrary: fs)
  case Nil
  then show ?case by simp
next
  case (Cons p kw)
  obtain a b where p: "p = (a, b)" by (cases p)
  from Cons.prems p have d: "distinct (map fst kw)" and na: "a \<notin> fst ` set kw" by simp_all
  show ?case
  proof (cases "(k, v) = (a, b)")
    case True
    with na have "map_of (merge kw (AList.update a b fs)) k = map_of (AList.update a b fs) k"
      using merge_lookup_other by fastforce
    with True p show ?thesis by (simp add: merge_simps update_conv')
  next
    case False
    with Cons.prems p have "(k, v) \<in> set kw" by auto
    from Cons.IH[OF d this] p show ?thesis by (simp add: merge_simps)
  qed
qed

lemma merge_same:
  "(\<And>k v. (k, v) \<in> set kw \<Longrightarrow> map_of fs k = Some v) \<Longrightarrow> merge kw fs = fs"
proof (induction kw)
  case Nil
  show ?case by (simp add: merge_simps)
next
  case (Cons p kw)
  obtain a b where p: "p = (a, b)" by (cases p)
  from Cons.prems p have "map_of fs a = Some b" by simp
  then have "AList.update a b fs = fs" by (rule update_triv)
  with Cons p show ?case by (simp add: merge_simps)
qed

lemma merge_idem:
  assumes "distinct (map fst kw)"
  shows "merge kw (merge kw fs) = merge kw fs"
  by (rule merge_same) (rule merge_lookup[OF assms])

lemma distinct_merge:
  "distinct (map fst fs) \<Longrightarrow> distinct (map fst (merge kw fs))"
proof (induction kw arbitrary: fs)
  case Nil
  then show ?case by (simp add: merge_simps)
next
  case (Cons p kw)
  obtain a b where p: "p = (a, b)" by (cases p)
  from Cons.prems have "distinct (map fst (AList.update a b fs))" by (rule distinct_update)
  from Cons.IH[OF this] p show ?case by (simp add: merge_simps)
qed

lemma update_present_keys:
  "map_of al k = Some w \<Longrightarrow> map fst (AList.update k v al) = map fst al"
proof -
  assume "map_of al k = Some w"
  then have "k \<in> set (map fst al)" by (metis map_of_eq_None_iff option.distinct(1) set_map)
  then show ?thesis by (simp add: update_keys)
qed

lemma str_name_Some: "str_name v = Some s \<Longrightarrow> v = PStr s"
  by (cases v) (auto split: if_splits)

lemma dict_get_str:
  assumes "str_name (dict_get kw k PNone) = Some s"
  shows "map_of kw k = Some (PStr s)"
proof (cases "map_of kw k")
  case None
  with assms show ?thesis by (simp add: dict_get_def)
next
  case (Some v)
  with assms have "str_name v = Some s" by (simp add: dict_get_def)
  with Some show ?thesis by (simp add: str_name_Some)
qed

lemma coerce_keys:
  assumes "coerce_filter_values h kw = Inr kw'"
  shows "map fst kw' = map fst kw"
proof -
  obtain kw1 where k1: "(case str_name (dict_get kw ''of_category'' PNone) of
                 None \<Rightarrow> Inr kw
               | Some s \<Rightarrow>
                  (case BicEnum_get h s of
                     Inl e \<Rightarrow> Inl e
                   | Inr v \<Rightarrow> Inr (AList.update ''of_category'' v kw))) = Inr kw1"
    and k2: "(case str_name (dict_get kw1 ''of_class'' PNone) of
                   None \<Rightarrow> Inr kw1
                 | Some s \<Rightarrow>
                    (case DB_getattr h s of
                       Inl e \<Rightarrow> Inl e
                     | Inr v \<Rightarrow> Inr (AList.update ''of_class'' v kw1))) = Inr kw'"
    using assms by (auto simp add: coerce_filter_values_def Let_def split: sum.splits)
  have a: "map fst kw1 = map fst kw"
    using k1 by (auto split: option.splits sum.splits dest!: dict_get_str simp add: update_present_keys)
  have b: "map fst kw' = map fst kw1"
    using k2 by (auto split: option.splits sum.splits dest!: dict_get_str simp add: update_present_keys)
  from a b show ?thesis by simp
qed

lemma filter_call_merge:
  "filter_call h kw self =
    (case coerce_filter_values h kw of
       Inl e \<Rightarrow> (Some e, self)
     | Inr kw' \<Rightarrow>
        (case chain h (collector_doc self) (merge kw' (filters self)) (revit_object self) of
           (Some e, c) \<Rightarrow> (Some e, self\<lparr>filters := merge kw' (filters self), revit_object := c\<rparr>)
         | (None, c) \<Rightarrow>
             (None, self\<lparr>filters := merge kw' (filters self), revit_object := c,
                         elements := c\<rparr>)))"
  by (auto simp add: filter_call_def merge_def Let_def split: sum.split prod.split option.split)

text \<open>
  The constructor as a pipeline: for a keyword dictionary, the result set is what scope
  resolution, the key check, the coercion and one run over the coerced filters give. A
  rewriting \<open>T\<close> of dictionaries that leaves the looked-at keys alone commutes with scope
  resolution and with coercion.
\<close>

lemma update_append_notin:
  "k \<notin> fst ` set P \<Longrightarrow> AList.update k v (P @ Q) = P @ AList.update k v Q"
  by (induction P) auto

lemma merge_onto:
  "map fst X' = map fst X \<Longrightarrow> distinct (map fst (P @ X)) \<Longrightarrow> merge X' (P @ X) = P @ X'"
proof (induction X' arbitrary: X P)
  case Nil
  then show ?case by (simp add: merge_simps)
next
  case (Cons p' X')
  obtain k v' where p': "p' = (k, v')" by (cases p')
  from Cons.prems(1) p' obtain v Xr where X: "X = (k, v) # Xr" and ks: "map fst X' = map fst Xr"
    by (cases X) auto
  from Cons.prems(2) X have nk: "k \<notin> fst ` set P" by auto
  have u: "AList.update k v' (P @ (k, v) # Xr) = (P @ [(k, v')]) @ Xr"
    using nk by (simp add: update_append_notin)
  have d: "distinct (map fst ((P @ [(k, v')]) @ Xr))"
    using Cons.prems(2) X by simp
  from Cons.IH[OF ks d] show ?case
    by (simp add: p' X merge_simps u)
qed

lemma merge_self_keys:
  assumes "map fst F' = map fst F" "distinct (map fst F)"
  shows "merge F' F = F'"
  using merge_onto[of F' F "[]"] assms by simp

lemma special_mem:
  "''doc'' \<in> special_keys" "''view'' \<in> special_keys" "''elements'' \<in> special_keys"
  "''element_ids'' \<in> special_keys" "''of_category'' \<in> special_keys"
  "''of_class'' \<in> special_keys"
  by (simp_all add: special_keys_def)

lemma resolve_distinct:
  assumes "resolve_scope h kw = Inr (d, sc, F)" "distinct (map fst kw)"
  shows "distinct (map fst F)"
  using assms
  by (auto simp add: resolve_scope_def Let_def distinct_delete
      split: option.splits sum.splits if_splits)

lemma resolve_scope_T:
  assumes P1: "\<And>key kw. key \<in> special_keys \<Longrightarrow> map_of (T kw) key = map_of kw key"
    and P2: "\<And>key kw. key \<in> special_keys \<Longrightarrow> AList.delete key (T kw) = T (AList.delete key kw)"
  shows "resolve_scope h (T kw) = map_sum id (\<lambda>(d, sc, F). (d, sc, T F)) (resolve_scope h kw)"
proof -
  note m = P1[OF special_mem(1)] P1[OF special_mem(2)] P1[OF special_mem(3)] P1[OF special_mem(4)]
  note dl = P2[OF special_mem(1)] P2[OF special_mem(2)] P2[OF special_mem(3)] P2[OF special_mem(4)]
  show ?thesis
  proof (cases "map_of kw ''doc''")
    case None
    then show ?thesis
      by (simp add: resolve_scope_def Let_def m dl split: option.split sum.split)
  next
    case (Some v)
    then show ?thesis
      by (simp add: resolve_scope_def Let_def m dl split: option.split sum.split)
  qed
qed

lemma coerce_stages:
  "coerce_filter_values h kw =
    (case coerce_key (BicEnum_get h) ''of_category'' kw of
       Inl e \<Rightarrow> Inl e
     | Inr kw1 \<Rightarrow> coerce_key (DB_getattr h) ''of_class'' kw1)"
  by (simp add: coerce_filter_values_def coerce_key_def Let_def split: sum.split option.split)

lemma coerce_key_T:
  assumes k: "key \<in> special_keys"
    and P1: "\<And>key kw. key \<in> special_keys \<Longrightarrow> map_of (T kw) key = map_of kw key"
    and P3: "\<And>key v kw. key \<in> special_keys \<Longrightarrow>
                AList.update key v (T kw) = T (AList.update key v kw)"
  shows "coerce_key resolver key (T kw) = map_sum id T (coerce_key resolver key kw)"
proof -
  have g: "dict_get (T kw) key PNone = dict_get kw key PNone"
    by (simp add: dict_get_def P1[OF k])
  show ?thesis
  proof (cases "str_name (dict_get kw key PNone)")
    case None
    then show ?thesis by (simp add: coerce_key_def g)
  next
    case (Some s)
    then show ?thesis
      by (cases "resolver s") (simp_all add: coerce_key_def g P3[OF k])
  qed
qed

lemma coerce_T:
  assumes P1: "\<And>key kw. key \<in> special_keys \<Longrightarrow> map_of (T kw) key = map_of kw key"
    and P3: "\<And>key v kw. key \<in> special_keys \<Longrightarrow>
                AList.update key v (T kw) = T (AList.update key v kw)"
  shows "coerce_filter_values h (T kw) = map_sum id T (coerce_filter_values h kw)"
proof -
  note c1 = coerce_key_T[OF special_mem(5) P1 P3]
  note c2 = coerce_key_T[OF special_mem(6) P1 P3]
  show ?thesis
  proof (cases "coerce_key (BicEnum_get h) ''of_category'' kw")
    case (Inl e)
    then show ?thesis by (simp add: coerce_stages c1)
  next
    case (Inr kw1)
    then show ?thesis by (simp add: coerce_stages c1 c2)
  qed
qed

lemma ResultSet_Collector:
  assumes "distinct (map fst kw)"
  shows "ResultSet (Collector h kw) =
    (case resolve_scope h kw of
       Inl e \<Rightarrow> Inl e
     | Inr (d, sc, F) \<Rightarrow>
        (case check_filters F of
           Some e \<Rightarrow> Inl e
         | None \<Rightarrow>
            (if F = [] then Inr []
             else (case coerce_filter_values h F of
                     Inl e \<Rightarrow> Inl e
                   | Inr F' \<Rightarrow>
                      (case run_items h d F' (scope_elements h sc) of
                         (Some e, c) \<Rightarrow> Inl e
                       | (None, c) \<Rightarrow> Inr c)))))"
proof (cases "resolve_scope h kw")
  case (Inl e)
  then show ?thesis by (simp add: ResultSet_def Collector_def)
next
  case (Inr r)
  obtain d sc F where r: "r = (d, sc, F)" by (cases r)
  from resolve_distinct[OF Inr[unfolded r] assms] have dF: "distinct (map fst F)" .
  show ?thesis
  proof (cases "check_filters F = None \<and> F \<noteq> []")
    case False
    then show ?thesis
      by (auto simp add: ResultSet_def Collector_def Inr r)
  next
    case True
    show ?thesis
    proof (cases "coerce_filter_values h F")
      case (Inl e)
      with True show ?thesis
        by (simp add: ResultSet_def Collector_def Inr r filter_call_merge)
    next
      case co: (Inr F')
      have k: "map fst F' = map fst F" using coerce_keys[OF co] .
      have mg: "merge F' F = F'" using merge_self_keys[OF k dF] .
      have dF': "distinct (map fst F')" using k dF by simp
      have ch: "chain h d F' c = run_items h d F' c" for c
        by (simp add: chain_def chain_run[OF dF'])
      show ?thesis using True
        by (simp add: ResultSet_def Collector_def Inr r filter_call_merge co mg ch
            split: prod.split option.split)
    qed
  qed
qed

text \<open>
  Replacing a filter pair by one on which the loop body does the same, under keys that
  neither the constructor nor the coercion looks at, does not change the result set.
\<close>

lemma rename_simps:
  "rename a b [] = []"
  "rename a b (p # kw) = (if p = a then b else p) # rename a b kw"
  by (simp_all add: rename_def)

lemma rename_lookup:
  assumes "fst a \<noteq> key" "fst b \<noteq> key"
  shows "map_of (rename a b kw) key = map_of kw key"
  using assms by (induction kw) (auto simp add: rename_simps)

lemma rename_delete:
  assumes "fst a \<noteq> key" "fst b \<noteq> key"
  shows "AList.delete key (rename a b kw) = rename a b (AList.delete key kw)"
  using assms by (induction kw) (auto simp add: rename_simps)

lemma rename_update:
  assumes "fst a \<noteq> key" "fst b \<noteq> key"
  shows "AList.update key v (rename a b kw) = rename a b (AList.update key v kw)"
  using assms by (induction kw) (auto simp add: rename_simps)

lemma rename_check:
  assumes "map_of MAP (fst a) \<noteq> None" "map_of MAP (fst b) \<noteq> None"
  shows "check_filters (rename a b F) = check_filters F"
proof (induction F)
  case Nil
  show ?case by (simp add: rename_simps)
next
  case (Cons p F)
  obtain k v where p: "p = (k, v)" by (cases p)
  obtain kb vb where b: "b = (kb, vb)" by (cases b)
  show ?case
  proof (cases "p = a")
    case True
    with assms p b Cons show ?thesis by (auto simp add: rename_simps)
  next
    case False
    with p Cons show ?thesis by (simp add: rename_simps)
  qed
qed

lemma rename_run:
  assumes "\<And>c. apply_filter h d (fst a) (snd a) c = apply_filter h d (fst b) (snd b) c"
  shows "run_items h d (rename a b F) c = run_items h d F c"
proof (induction F arbitrary: c)
  case Nil
  show ?case by (simp add: rename_simps)
next
  case (Cons p F)
  obtain k v where p: "p = (k, v)" by (cases p)
  obtain kb vb where b: "b = (kb, vb)" by (cases b)
  show ?case
  proof (cases "p = a")
    case True
    with p have a: "a = (k, v)" by simp
    from assms[of c] a b have e: "apply_filter h d kb vb c = apply_filter h d k v c" by simp
    have "run_items h d (rename a b (p # F)) c = run_items h d ((kb, vb) # rename a b F) c"
      using True b by (simp add: rename_simps)
    also have "\<dots> = run_items h d ((k, v) # F) c"
      by (simp add: e Cons.IH split: sum.split)
    finally show ?thesis by (simp add: p)
  next
    case False
    with p Cons show ?thesis by (simp add: rename_simps split: sum.split)
  qed
qed

lemma rename_Nil: "(rename a b F = []) = (F = [])"
  by (simp add: rename_def)

lemma rename_ResultSet:
  assumes na: "fst a \<notin> special_keys" and nb: "fst b \<notin> special_keys"
    and ma: "map_of MAP (fst a) \<noteq> None" and mb: "map_of MAP (fst b) \<noteq> None"
    and st: "\<And>d c. apply_filter h d (fst a) (snd a) c = apply_filter h d (fst b) (snd b) c"
    and d1: "distinct (map fst kw)" and d2: "distinct (map fst (rename a b kw))"
  shows "ResultSet (Collector h (rename a b kw)) = ResultSet (Collector h kw)"
proof -
  have P1: "\<And>key kw. key \<in> special_keys \<Longrightarrow> map_of (rename a b kw) key = map_of kw key"
    using na nb by (auto intro: rename_lookup)
  have P2: "\<And>key kw. key \<in> special_keys \<Longrightarrow>
      AList.delete key (rename a b kw) = rename a b (AList.delete key kw)"
    using na nb by (auto intro: rename_delete)
  have P3: "\<And>key v kw. key \<in> special_keys \<Longrightarrow>
      AList.update key v (rename a b kw) = rename a b (AList.update key v kw)"
    using na nb by (auto intro: rename_update)
  note rs = resolve_scope_T[of "rename a b", OF P1 P2]
  note co = coerce_T[of "rename a b", OF P1 P3]
  show ?thesis
  proof (cases "resolve_scope h kw")
    case (Inl e)
    then show ?thesis
      by (simp add: ResultSet_Collector[OF d1] ResultSet_Collector[OF d2] rs)
  next
    case (Inr r)
    obtain d sc F where r: "r = (d, sc, F)" by (cases r)
    show ?thesis
    proof (cases "check_filters F")
      case (Some e)
      then show ?thesis
        by (simp add: ResultSet_Collector[OF d1] ResultSet_Collector[OF d2] rs Inr r
            rename_check[OF ma mb])
    next
      case None
      show ?thesis
      proof (cases "coerce_filter_values h F")
        case (Inl e)
        then show ?thesis
          by (simp add: ResultSet_Collector[OF d1] ResultSet_Collector[OF d2] rs Inr r
              rename_check[OF ma mb] None rename_Nil co)
      next
        case co': (Inr F')
        then show ?thesis
          by (simp add: ResultSet_Collector[OF d1] ResultSet_Collector[OF d2] rs Inr r
              rename_check[OF ma mb] None rename_Nil co rename_run[OF st])
      qed
    qed
  qed
qed

lemma rename_absent: "a \<notin> set kw \<Longrightarrow> rename a b kw = kw"
  by (induction kw) (auto simp add: rename_simps)

lemma rename_mid:
  assumes "fst a \<notin> fst ` set (A @ B)"
  shows "rename a b (A @ [a] @ B) = A @ [b] @ B"
proof -
  from assms have "a \<notin> set A" "a \<notin> set B" by force+
  then show ?thesis
    using rename_absent[of a A b] rename_absent[of a B b] by (simp add: rename_def)
qed

lemma duality_steps:
  "apply_filter h d ''is_type'' (PBool False) c = apply_filter h d ''is_not_type'' (PBool True) c"
  "apply_filter h d ''is_not_type'' (PBool False) c = apply_filter h d ''is_type'' (PBool True) c"
  by (simp_all add: bool_step MAP_facts)

lemma mid_ResultSet:
  assumes d: "distinct (map fst (A @ B))"
    and ka: "fst a \<notin> fst ` set (A @ B)" and kb: "fst b \<notin> fst ` set (A @ B)"
    and na: "fst a \<notin> special_keys" and nb: "fst b \<notin> special_keys"
    and ma: "map_of MAP (fst a) \<noteq> None" and mb: "map_of MAP (fst b) \<noteq> None"
    and st: "\<And>d c. apply_filter h d (fst a) (snd a) c = apply_filter h d (fst b) (snd b) c"
  shows "ResultSet (Collector h (A @ [b] @ B)) = ResultSet (Collector h (A @ [a] @ B))"
proof -
  have d1: "distinct (map fst (A @ [a] @ B))" using d ka by auto
  have d2: "distinct (map fst (rename a b (A @ [a] @ B)))"
    unfolding rename_mid[OF ka] using d kb by auto
  from rename_ResultSet[OF na nb ma mb st d1 d2] show ?thesis
    unfolding rename_mid[OF ka] .
qed

lemmas run_defs = Collector_def resolve_scope_def demo_host_def Let_def ResultSet_def
  filter_call_def coerce_filter_values_def dict_get_def chain_def apply_filter_def
  getitem_def MAP_def invoke_def narrowing_def

text \<open>
  Removing a filter pair on which the loop body does nothing, under a key that neither the
  constructor nor the coercion looks at, does not change the result set, as long as
  another filter is left.
\<close>

lemma delete_check:
  assumes "map_of MAP k0 \<noteq> None"
  shows "check_filters (AList.delete k0 F) = check_filters F"
proof (induction F)
  case Nil
  show ?case by simp
next
  case (Cons p F)
  obtain k v where p: "p = (k, v)" by (cases p)
  with Cons assms show ?case by auto
qed

lemma delete_run:
  assumes "\<And>v c. (k0, v) \<in> set F \<Longrightarrow> apply_filter h d k0 v c = Inr c"
  shows "run_items h d (AList.delete k0 F) c = run_items h d F c"
  using assms
proof (induction F arbitrary: c)
  case Nil
  show ?case by simp
next
  case (Cons p F)
  obtain k v where p: "p = (k, v)" by (cases p)
  have ih: "run_items h d (AList.delete k0 F) c' = run_items h d F c'" for c'
    using Cons.IH Cons.prems by simp
  show ?case
  proof (cases "k = k0")
    case True
    with Cons.prems[of v c] p have "apply_filter h d k v c = Inr c" by simp
    with True p ih show ?thesis by simp
  next
    case False
    with p ih show ?thesis by (simp split: sum.split)
  qed
qed

lemma delete_member: "x \<in> set (AList.delete k al) \<Longrightarrow> x \<in> set al"
  by (auto simp add: AList.delete_eq)

lemma resolve_subset:
  assumes "resolve_scope h kw = Inr (d, sc, F)"
  shows "set F \<subseteq> set kw"
  using assms
  by (auto simp add: resolve_scope_def Let_def split: option.splits sum.splits if_splits
      dest!: delete_member)

lemma resolve_lookup:
  assumes "resolve_scope h kw = Inr (d, sc, F)"
    and "key \<noteq> ''doc''" "key \<noteq> ''view''" "key \<noteq> ''elements''" "key \<noteq> ''element_ids''"
  shows "map_of F key = map_of kw key"
  using assms
  by (auto simp add: resolve_scope_def Let_def split: option.splits sum.splits if_splits)

lemma update_entries:
  "(k, v) \<in> set (AList.update key w al) \<Longrightarrow> k \<noteq> key \<Longrightarrow> (k, v) \<in> set al"
  by (induction al) (auto split: if_splits)

lemma coerce_key_entries:
  assumes "coerce_key resolver key F = Inr F'" "k \<noteq> key" "(k, v) \<in> set F'"
  shows "(k, v) \<in> set F"
  using assms
  by (auto simp add: coerce_key_def split: option.splits sum.splits dest: update_entries)

lemma coerce_entries:
  assumes "coerce_filter_values h F = Inr F'" "k \<noteq> ''of_category''" "k \<noteq> ''of_class''"
    and "(k, v) \<in> set F'"
  shows "(k, v) \<in> set F"
proof -
  from assms(1) obtain F1 where a: "coerce_key (BicEnum_get h) ''of_category'' F = Inr F1"
    and b: "coerce_key (DB_getattr h) ''of_class'' F1 = Inr F'"
    by (auto simp add: coerce_stages split: sum.splits)
  from coerce_key_entries[OF b assms(3) assms(4)] have "(k, v) \<in> set F1" .
  from coerce_key_entries[OF a assms(2) this] show ?thesis .
qed

lemma delete_ResultSet:
  assumes nk: "k0 \<notin> special_keys" and mk: "map_of MAP k0 \<noteq> None"
    and inert: "\<And>v d c. (k0, v) \<in> set kw \<Longrightarrow> apply_filter h d k0 v c = Inr c"
    and d1: "distinct (map fst kw)"
    and other: "map_of kw key \<noteq> None" "key \<noteq> k0" "key \<noteq> ''doc''" "key \<noteq> ''view''"
      "key \<noteq> ''elements''" "key \<noteq> ''element_ids''"
  shows "ResultSet (Collector h (AList.delete k0 kw)) = ResultSet (Collector h kw)"
proof -
  have P1: "map_of (AList.delete k0 kw) key = map_of kw key"
    if "key \<in> special_keys" for key and kw :: kwargs
  proof -
    from that nk have "key \<noteq> k0" by auto
    then show ?thesis by simp
  qed
  have P2: "AList.delete key (AList.delete k0 kw) = AList.delete k0 (AList.delete key kw)"
    if "key \<in> special_keys" for key and kw :: kwargs
    by (rule delete_twist)
  have P3: "AList.update key v (AList.delete k0 kw) = AList.delete k0 (AList.update key v kw)"
    if "key \<in> special_keys" for key v and kw :: kwargs
  proof -
    from that nk have "key \<noteq> k0" by auto
    then show ?thesis by (simp add: delete_update)
  qed
  note rs = resolve_scope_T[of "AList.delete k0", OF P1 P2]
  note co = coerce_T[of "AList.delete k0", OF P1 P3]
  have d2: "distinct (map fst (AList.delete k0 kw))" using d1 by (rule distinct_delete)
  have kc: "k0 \<noteq> ''of_category''" "k0 \<noteq> ''of_class''"
    using nk by (auto simp add: special_keys_def)
  show ?thesis
  proof (cases "resolve_scope h kw")
    case (Inl e)
    then show ?thesis
      by (simp add: ResultSet_Collector[OF d1] ResultSet_Collector[OF d2] rs)
  next
    case (Inr r)
    obtain d sc F where r: "r = (d, sc, F)" by (cases r)
    from Inr r have res: "resolve_scope h kw = Inr (d, sc, F)" by simp
    from resolve_lookup[OF res other(3-6)] other(1) have lk: "map_of F key \<noteq> None" by simp
    then have ne: "F \<noteq> []" by auto
    from lk other(2) have "map_of (AList.delete k0 F) key \<noteq> None" by simp
    then have ne': "AList.delete k0 F \<noteq> []" by auto
    show ?thesis
    proof (cases "check_filters F")
      case (Some e)
      then show ?thesis
        by (simp add: ResultSet_Collector[OF d1] ResultSet_Collector[OF d2] rs res
            delete_check[OF mk])
    next
      case None
      show ?thesis
      proof (cases "coerce_filter_values h F")
        case (Inl e)
        then show ?thesis
          by (simp add: ResultSet_Collector[OF d1] ResultSet_Collector[OF d2] rs res
              delete_check[OF mk] None ne ne' co)
      next
        case co': (Inr F')
        have "\<And>v c. (k0, v) \<in> set F' \<Longrightarrow> apply_filter h d k0 v c = Inr c"
          using coerce_entries[OF co' kc] resolve_subset[OF res] inert by blast
        from delete_run[of k0 F' h d, OF this]
        have run: "run_items h d (AList.delete k0 F') c = run_items h d F' c" for c .
        show ?thesis
          by (simp add: ResultSet_Collector[OF d1] ResultSet_Collector[OF d2] rs res
              delete_check[OF mk] None ne ne' co co' run)
      qed
    qed
  qed
qed

lemma delete_mid:
  assumes "k0 \<notin> fst ` set (A @ B)"
  shows "AList.delete k0 (A @ [(k0, v)] @ B) = A @ B"
proof -
  from assms have "AList.delete k0 A = A" "AList.delete k0 B = B" by (auto simp add: image_Un)
  then show ?thesis by (simp add: AList.delete_eq)
qed

text \<open>Every valid condition name is one of sixteen, and the rule loop on valid names.\<close>

lemma valid_name_cases:
  assumes "base_name name \<in> set comparison_names"
  shows "name \<in> set all_names"
proof (cases "prefix ''not_'' name")
  case True
  then obtain zs where n: "name = ''not_'' @ zs" by (auto simp add: prefix_def)
  then have "drop 4 name = zs" by simp
  with assms True have "zs \<in> set comparison_names" by (simp add: base_name_def)
  with n show ?thesis by (simp add: all_names_def)
next
  case False
  with assms show ?thesis by (simp add: base_name_def all_names_def)
qed

lemma plain_names:
  assumes "name \<in> set comparison_names"
  shows "map_of RULES name = Some (factory_of name)"
    and "\<not> sublist ''not_'' name" and "\<not> prefix ''not_'' name"
  using assms
  by (auto simp add: comparison_names_def RULES_def factory_of_def sublist_code prefix_code)

lemma negated_names:
  assumes "name \<in> set comparison_names"
  shows "map_of RULES (''not_'' @ name) = Some (factory_of name)"
    and "sublist ''not_'' (''not_'' @ name)"
  using assms
  by (auto simp add: comparison_names_def RULES_def factory_of_def sublist_code prefix_code)

lemma step_rule:
  assumes "base_name name \<in> set comparison_names"
  shows "map_of RULES name = Some (factory_of (base_name name))"
    and "sublist ''not_'' name = prefix ''not_'' name"
proof -
  have "map_of RULES name = Some (factory_of (base_name name))
        \<and> sublist ''not_'' name = prefix ''not_'' name"
  proof (cases "prefix ''not_'' name")
    case True
    then obtain zs where n: "name = ''not_'' @ zs" by (auto simp add: prefix_def)
    then have b: "base_name name = zs" using True by (simp add: base_name_def)
    with assms have "zs \<in> set comparison_names" by simp
    from negated_names[OF this] True b n show ?thesis by simp
  next
    case False
    then have b: "base_name name = name" by (simp add: base_name_def)
    with assms have "name \<in> set comparison_names" by simp
    from plain_names[OF this] b show ?thesis by simp
  qed
  then show "map_of RULES name = Some (factory_of (base_name name))"
    and "sublist ''not_'' name = prefix ''not_'' name" by simp_all
qed

lemma valid_check: "valid_conditions conds \<Longrightarrow> check_conditions conds = None"
proof (induction conds)
  case Nil
  then show ?case by simp
next
  case (Cons cond conds)
  obtain name V where c: "cond = (name, V)" by (cases cond)
  from Cons.prems c have v: "base_name name \<in> set comparison_names"
    and r: "valid_conditions conds" by (simp_all add: valid_conditions_def)
  from step_rule(1)[OF v] Cons.IH[OF r] c show ?case by simp
qed

lemma valid_build:
  "valid_conditions conds \<Longrightarrow>
     build_rules pid CASE_SENSITIVE FLOAT_PRECISION conds = Inr (map (spec_rule pid) conds)"
proof (induction conds)
  case Nil
  then show ?case by simp
next
  case (Cons cond conds)
  obtain name V where c: "cond = (name, V)" by (cases cond)
  from Cons.prems c have v: "base_name name \<in> set comparison_names"
    and r: "valid_conditions conds" by (simp_all add: valid_conditions_def)
  from step_rule[OF v] Cons.IH[OF r] c show ?case
    by (simp add: spec_rule_def rule_args_def Let_def)
qed

lemma valid_no_option:
  assumes "valid_conditions conds" and "k \<notin> set all_names"
  shows "map_of conds k = None"
proof -
  have "fst ` set conds \<subseteq> set all_names"
    using assms(1) valid_name_cases by (auto simp add: valid_conditions_def list_all_iff)
  with assms(2) have "k \<notin> fst ` set conds" by blast
  then show ?thesis by (simp add: map_of_eq_None_iff)
qed

lemma option_names:
  "''reverse'' \<notin> set all_names" "''case_sensitive'' \<notin> set all_names"
  "''precision'' \<notin> set all_names"
  by (simp_all add: all_names_def comparison_names_def)

lemma valid_ParameterFilter:
  assumes "valid_conditions conds" and "conds \<noteq> []"
  shows "ParameterFilter pid conds
    = Inr (PParameterFilter (ElementParameterFilter (map (spec_rule pid) conds) (PBool False)))"
  using assms
  by (simp add: ParameterFilter_def dict_get_def valid_no_option[OF assms(1)] option_names
        valid_check valid_build)

lemma spec_rule_plain:
  "name \<in> set comparison_names \<Longrightarrow>
     spec_rule pid (name, V) = FilterRule (factory_of name) pid (rule_args V)"
  using plain_names(3)[of name] by (simp add: spec_rule_def base_name_def)

lemma spec_rule_negated:
  "spec_rule pid (''not_'' @ name, V)
     = FilterInverseRule (FilterRule (factory_of name) pid (rule_args V))"
  by (simp add: spec_rule_def base_name_def)

lemma valid_single:
  assumes "name \<in> set comparison_names"
  shows "valid_conditions [(name, V)]" and "valid_conditions [(''not_'' @ name, V)]"
  using assms plain_names(3)[OF assms] by (simp_all add: valid_conditions_def base_name_def)

section \<open>Option keys of ParameterFilter\<close>

text \<open>
  Claim C1. The claim says that \<open>ParameterFilter\<close> accepts the option keys
  \<open>case_sensitive\<close>, \<open>precision\<close> and \<open>reverse\<close> beside the conditions. The code reads the
  options with \<open>get\<close> and leaves them in the dictionary, so the validation loop meets them
  as condition names: the docstring's own example
  \<open>ParameterFilter(param_id, not_equals=3, reverse=True)\<close> raises
  \<open>RPW_Exception('Rule not valid: reverse')\<close>.
\<close>

theorem ParameterFilter_reverse_option_rejected:
  "ParameterFilter (PElementId 1) [(''not_equals'', PInt 3), (''reverse'', PBool True)]
     = Inl (RPW_Exception ''Rule not valid: {}'' [PStr ''reverse''])"
  by (simp add: ParameterFilter_def RULES_def)

section \<open>Unknown filter names\<close>

text \<open>
  Claim C2. The claim says that an unknown name raises the library's invalid-filter
  exception on every path. In \<open>_chain\<close> the table lookup \<open>_Filter.MAP[filter_name]\<close> comes
  before the membership test, so \<open>Collector().filter(bogus=1)\<close> raises \<open>KeyError\<close>, not
  \<open>RPW_Exception\<close>.
\<close>

theorem filter_unknown_name_KeyError:
  "Collector demo_host [] = Inr empty_collector
   \<and> fst (filter_call demo_host [(''bogus'', PInt 1)] empty_collector) = Some (KeyError ''bogus'')"
  by (simp add: Collector_def resolve_scope_def demo_host_def empty_collector_def Let_def
        filter_call_def coerce_filter_values_def dict_get_def chain_def apply_filter_def
        getitem_def MAP_def)

section \<open>A failed filter call\<close>

text \<open>
  Claim C3. The claim says that a \<open>.filter(...)\<close> call with an unrecognized key fails before
  any narrowing and leaves the collector as it was. The code writes the new pairs into the
  stored dictionary before the chain runs, and the chain narrows the adapter for the keys
  that come before the bad one. On \<open>Collector(of_class='Wall')\<close>, the call
  \<open>.filter(is_type=True, bogus=1)\<close> raises \<open>KeyError\<close>; afterwards the stored dictionary
  holds \<open>is_type\<close> and \<open>bogus\<close>, the adapter is narrowed to the element types, and only the
  cached list is unchanged.
\<close>

theorem filter_unknown_key_absorbed:
  "Collector demo_host [(''of_class'', PStr ''Wall'')] = Inr wall_collector
   \<and> filter_call demo_host [(''is_type'', PBool True), (''bogus'', PInt 1)] wall_collector
     = (Some (KeyError ''bogus''),
        \<lparr>revit_object = [2, 4], collector_doc = PDocument ''active'', elements = [1, 2, 3, 4],
         filters = [(''of_class'', PType ''Wall''), (''is_type'', PBool True),
                    (''bogus'', PInt 1)]\<rparr>)"
  by (simp add: Collector_def resolve_scope_def demo_host_def wall_collector_def Let_def
        filter_call_def coerce_filter_values_def dict_get_def chain_def apply_filter_def
        getitem_def MAP_def invoke_def narrowing_def)

section \<open>Negated conditions\<close>

text \<open>
  Claim C6. For every comparison name the table gives the \<open>not_\<close> form the same factory as
  the plain form. For every condition set whose names are in the vocabulary,
  \<open>ParameterFilter\<close> builds one rule per condition, in order: the atomic rule of the base
  comparison, wrapped in \<open>FilterInverseRule\<close> exactly for the \<open>not_\<close> forms. The inverted
  rule passes an element exactly when the plain rule does not, and so the predicate of
  \<open>ParameterFilter(pid, not_X=V)\<close> is the inverse of that of \<open>ParameterFilter(pid, X=V)\<close>
  on every element.
\<close>

theorem not_prefix_inverts:
  "(\<forall>name \<in> set comparison_names.
       (\<exists>factory. map_of RULES name = Some factory
                 \<and> map_of RULES (''not_'' @ name) = Some factory)
     \<and> rule_passes h (spec_rule pid (''not_'' @ name, V)) e
         = (\<not> rule_passes h (spec_rule pid (name, V)) e)
     \<and> composite_passes h (ParameterFilter pid [(name, V)]) e \<noteq> None
     \<and> composite_passes h (ParameterFilter pid [(''not_'' @ name, V)]) e
         = map_option Not (composite_passes h (ParameterFilter pid [(name, V)]) e))
   \<and> (valid_conditions conds \<and> conds \<noteq> [] \<longrightarrow>
        ParameterFilter pid conds
          = Inr (PParameterFilter
                   (ElementParameterFilter (map (spec_rule pid) conds) (PBool False))))"
proof (intro conjI ballI impI)
  fix name assume n: "name \<in> set comparison_names"
  show "\<exists>factory. map_of RULES name = Some factory
                 \<and> map_of RULES (''not_'' @ name) = Some factory"
    using plain_names(1)[OF n] negated_names(1)[OF n] by simp
  show "rule_passes h (spec_rule pid (''not_'' @ name, V)) e
         = (\<not> rule_passes h (spec_rule pid (name, V)) e)"
    unfolding spec_rule_plain[OF n] spec_rule_negated by simp
  have p: "ParameterFilter pid [(name, V)]
      = Inr (PParameterFilter (ElementParameterFilter [spec_rule pid (name, V)] (PBool False)))"
    using valid_ParameterFilter[where pid = pid, OF valid_single(1)[OF n, where V = V]] by simp
  have q: "ParameterFilter pid [(''not_'' @ name, V)]
      = Inr (PParameterFilter
               (ElementParameterFilter [spec_rule pid (''not_'' @ name, V)] (PBool False)))"
    using valid_ParameterFilter[where pid = pid, OF valid_single(2)[OF n, where V = V]] by simp
  show "composite_passes h (ParameterFilter pid [(name, V)]) e \<noteq> None"
    by (simp add: p composite_passes_def)
  show "composite_passes h (ParameterFilter pid [(''not_'' @ name, V)]) e
         = map_option Not (composite_passes h (ParameterFilter pid [(name, V)]) e)"
    unfolding p q spec_rule_plain[OF n] spec_rule_negated by (simp add: composite_passes_def)
next
  assume "valid_conditions conds \<and> conds \<noteq> []"
  then show "ParameterFilter pid conds
          = Inr (PParameterFilter
                   (ElementParameterFilter (map (spec_rule pid) conds) (PBool False)))"
    by (simp add: valid_ParameterFilter)
qed

theorem not_prefix_inverts_witness:
  "valid_conditions [(''not_equals'', PInt 3), (''less'', PFloat 10 0)]
   \<and> ParameterFilter (PElementId 1) [(''not_equals'', PInt 3), (''less'', PFloat 10 0)]
     = Inr (PParameterFilter (ElementParameterFilter
              [FilterInverseRule (FilterRule ''CreateEqualsRule'' (PElementId 1) [PInt 3]),
               FilterRule ''CreateLessRule'' (PElementId 1) [PFloat 10 0, FLOAT_PRECISION]]
              (PBool False)))
   \<and> ''equals'' \<in> set comparison_names
   \<and> composite_passes demo_host (ParameterFilter (PElementId 1) [(''equals'', PInt 3)]) 3
       = Some True
   \<and> composite_passes demo_host (ParameterFilter (PElementId 1) [(''not_equals'', PInt 3)]) 3
       = Some False"
proof -
  have v: "valid_conditions [(''not_equals'', PInt 3), (''less'', PFloat 10 0)]"
    by (simp add: valid_conditions_def base_name_def comparison_names_def)
  have m: "''equals'' \<in> set comparison_names"
    by (simp add: comparison_names_def)
  have r: "map (spec_rule (PElementId 1)) [(''not_equals'', PInt 3), (''less'', PFloat 10 0)]
      = [FilterInverseRule (FilterRule ''CreateEqualsRule'' (PElementId 1) [PInt 3]),
         FilterRule ''CreateLessRule'' (PElementId 1) [PFloat 10 0, FLOAT_PRECISION]]"
    by (simp add: spec_rule_def base_name_def factory_of_def RULES_def rule_args_def)
  have e: "composite_passes demo_host (ParameterFilter (PElementId 1) [(''equals'', PInt 3)]) 3
       = Some True"
    by (simp add: composite_passes_def ParameterFilter_def RULES_def dict_get_def Let_def
          sublist_code demo_host_def)
  note t = not_prefix_inverts [of demo_host "PElementId 1" "PInt 3" 3
      "[(''not_equals'', PInt 3), (''less'', PFloat 10 0)]"]
  from t v have g: "ParameterFilter (PElementId 1) [(''not_equals'', PInt 3), (''less'', PFloat 10 0)]
     = Inr (PParameterFilter (ElementParameterFilter
              (map (spec_rule (PElementId 1)) [(''not_equals'', PInt 3), (''less'', PFloat 10 0)])
              (PBool False)))"
    by blast
  from t m have "composite_passes demo_host
        (ParameterFilter (PElementId 1) [(''not_'' @ ''equals'', PInt 3)]) 3
      = map_option Not (composite_passes demo_host
          (ParameterFilter (PElementId 1) [(''equals'', PInt 3)]) 3)"
    by blast
  with e have n: "composite_passes demo_host
        (ParameterFilter (PElementId 1) [(''not_equals'', PInt 3)]) 3 = Some False"
    by simp
  from v m e n g r show ?thesis by simp
qed

section \<open>Duality of the type filters\<close>

text \<open>
  Claim C4. For every store and every other keyword arguments (the scope among them), in
  whatever place the pair stands in the dictionary: \<open>is_type=False\<close> gives the same result
  set as \<open>is_not_type=True\<close>, and \<open>is_not_type=False\<close> the same as \<open>is_type=True\<close>; when
  one constructor raises, the other raises the same exception.
\<close>

theorem type_duality:
  assumes "distinct (map fst (A @ B))"
    and "''is_type'' \<notin> fst ` set (A @ B)" and "''is_not_type'' \<notin> fst ` set (A @ B)"
  shows "ResultSet (Collector h (A @ [(''is_type'', PBool False)] @ B))
           = ResultSet (Collector h (A @ [(''is_not_type'', PBool True)] @ B))
       \<and> ResultSet (Collector h (A @ [(''is_not_type'', PBool False)] @ B))
           = ResultSet (Collector h (A @ [(''is_type'', PBool True)] @ B))"
proof -
  have sk: "''is_type'' \<notin> special_keys" "''is_not_type'' \<notin> special_keys"
    by (simp_all add: special_keys_def)
  have a: "ResultSet (Collector h (A @ [(''is_not_type'', PBool True)] @ B))
           = ResultSet (Collector h (A @ [(''is_type'', PBool False)] @ B))"
    using assms sk by (intro mid_ResultSet) (simp_all add: MAP_facts duality_steps)
  have b: "ResultSet (Collector h (A @ [(''is_type'', PBool True)] @ B))
           = ResultSet (Collector h (A @ [(''is_not_type'', PBool False)] @ B))"
    using assms sk by (intro mid_ResultSet) (simp_all add: MAP_facts duality_steps)
  from a b show ?thesis by simp
qed

theorem type_duality_witness:
  "distinct (map fst ([(''view'', PView 1)] @ [(''of_class'', PStr ''Wall'')]))
   \<and> ResultSet (Collector demo_host
         [(''view'', PView 1), (''is_type'', PBool False), (''of_class'', PStr ''Wall'')])
       = Inr [1, 3]
   \<and> ResultSet (Collector demo_host
         [(''view'', PView 1), (''is_not_type'', PBool True), (''of_class'', PStr ''Wall'')])
       = Inr [1, 3]
   \<and> ResultSet (Collector demo_host
         [(''view'', PView 1), (''is_not_type'', PBool False), (''of_class'', PStr ''Wall'')])
       = Inr [2]
   \<and> ResultSet (Collector demo_host
         [(''view'', PView 1), (''is_type'', PBool True), (''of_class'', PStr ''Wall'')])
       = Inr [2]"
proof -
  have d: "distinct (map fst ([(''view'', PView 1)] @ [(''of_class'', PStr ''Wall'')]))"
    by simp
  have k: "''is_type'' \<notin> fst ` set ([(''view'', PView 1)] @ [(''of_class'', PStr ''Wall'')])"
    "''is_not_type'' \<notin> fst ` set ([(''view'', PView 1)] @ [(''of_class'', PStr ''Wall'')])"
    by simp_all
  have x: "ResultSet (Collector demo_host
         [(''view'', PView 1), (''is_type'', PBool False), (''of_class'', PStr ''Wall'')])
       = Inr [1, 3]"
    by (simp add: run_defs)
  have y: "ResultSet (Collector demo_host
         [(''view'', PView 1), (''is_not_type'', PBool False), (''of_class'', PStr ''Wall'')])
       = Inr [2]"
    by (simp add: run_defs)
  from type_duality [OF d k, of demo_host] x y d show ?thesis by simp
qed

section \<open>A false view-independence flag\<close>

text \<open>
  Claim C10. The loop body on \<open>is_view_independent=False\<close> calls nothing and raises
  nothing: the adapter is returned as it is. For every store, every category value and
  every other keyword arguments (the scope among them), in whatever place the pair stands:
  the constructor given \<open>of_category=C\<close> and \<open>is_view_independent=False\<close> has the same
  result set, or raises the same exception, as the constructor without the flag.
\<close>

theorem view_independent_False_skipped:
  assumes "distinct (map fst (A @ B))"
    and "''is_view_independent'' \<notin> fst ` set (A @ B)"
    and "map_of (A @ B) ''of_category'' = Some C"
  shows "apply_filter h d ''is_view_independent'' (PBool False) c = Inr c
       \<and> ResultSet (Collector h (A @ [(''is_view_independent'', PBool False)] @ B))
           = ResultSet (Collector h (A @ B))"
proof -
  let ?k = "''is_view_independent''"
  let ?kw = "A @ [(?k, PBool False)] @ B"
  have st: "apply_filter h d' ?k (PBool False) c' = Inr c'" for d' c'
    by (simp add: bool_step MAP_facts)
  have nk: "?k \<notin> special_keys" by (simp add: special_keys_def)
  have mk: "map_of MAP ?k \<noteq> None" by (simp add: MAP_facts)
  have d1: "distinct (map fst ?kw)" using assms(1,2) by auto
  have only: "(?k, v) \<in> set ?kw \<Longrightarrow> v = PBool False" for v
    using assms(2) by force
  have inert: "\<And>v d c. (?k, v) \<in> set ?kw \<Longrightarrow> apply_filter h d ?k v c = Inr c"
    using only st by blast
  have lk: "map_of ?kw ''of_category'' \<noteq> None"
    using assms(3) by (auto simp add: map_add_def split: option.splits)
  have "ResultSet (Collector h (AList.delete ?k ?kw)) = ResultSet (Collector h ?kw)"
    by (rule delete_ResultSet[OF nk mk inert d1 lk]) simp_all
  then show ?thesis
    unfolding delete_mid[OF assms(2)] by (simp add: st)
qed

theorem view_independent_False_skipped_witness:
  "distinct (map fst ([(''view'', PView 1)] @ [(''of_category'', PStr ''OST_Walls'')]))
   \<and> map_of ([(''view'', PView 1)] @ [(''of_category'', PStr ''OST_Walls'')]) ''of_category''
       = Some (PStr ''OST_Walls'')
   \<and> ResultSet (Collector demo_host
         [(''view'', PView 1), (''of_category'', PStr ''OST_Walls'')]) = Inr [2, 3]
   \<and> ResultSet (Collector demo_host
         [(''view'', PView 1), (''is_view_independent'', PBool False),
          (''of_category'', PStr ''OST_Walls'')]) = Inr [2, 3]"
proof -
  have d: "distinct (map fst ([(''view'', PView 1)] @ [(''of_category'', PStr ''OST_Walls'')]))"
    by simp
  have k: "''is_view_independent''
      \<notin> fst ` set ([(''view'', PView 1)] @ [(''of_category'', PStr ''OST_Walls'')])"
    by simp
  have m: "map_of ([(''view'', PView 1)] @ [(''of_category'', PStr ''OST_Walls'')]) ''of_category''
       = Some (PStr ''OST_Walls'')"
    by simp
  have x: "ResultSet (Collector demo_host
         [(''view'', PView 1), (''of_category'', PStr ''OST_Walls'')]) = Inr [2, 3]"
    by (simp add: run_defs)
  from view_independent_False_skipped [OF d k m, of demo_host] x d m show ?thesis by simp
qed

section \<open>Filtering twice\<close>

text \<open>
  Claim C7. For every collector and every keyword set for which \<open>.filter(kw)\<close> returns,
  calling \<open>.filter(kw)\<close> again with the same keywords returns too and leaves the collector
  exactly as the first call left it; in particular the cached result set is the same.
  Dictionaries have distinct keys.
\<close>

theorem filter_twice:
  assumes dk: "distinct (map fst kw)"
    and df: "distinct (map fst (filters self))"
    and once: "filter_call h kw self = (None, self1)"
  shows "filter_call h kw self1 = (None, self1)
       \<and> elements (snd (filter_call h kw self1)) = elements self1"
proof -
  from once obtain kw' where co: "coerce_filter_values h kw = Inr kw'"
    by (auto simp add: filter_call_merge split: sum.splits)
  define M where "M = merge kw' (filters self)"
  from once co obtain c where ch: "chain h (collector_doc self) M (revit_object self) = (None, c)"
    and s1: "self1 = self\<lparr>filters := M, revit_object := c, elements := c\<rparr>"
    by (auto simp add: filter_call_merge M_def split: prod.splits option.splits)
  have dM: "distinct (map fst M)"
    unfolding M_def using df by (rule distinct_merge)
  have dk': "distinct (map fst kw')"
    using coerce_keys[OF co] dk by simp
  have mm: "merge kw' M = M"
    unfolding M_def using dk' by (rule merge_idem)
  from ch have "run_items h (collector_doc self) M (revit_object self) = (None, c)"
    by (simp add: chain_def chain_run[OF dM])
  then have "run_items h (collector_doc self) M c = (None, c)"
    by (rule run_items_idem)
  then have ch2: "chain h (collector_doc self) M c = (None, c)"
    by (simp add: chain_def chain_run[OF dM])
  have "filter_call h kw self1 = (None, self1)"
    by (simp add: filter_call_merge co s1 mm ch2)
  then show ?thesis by simp
qed

theorem filter_twice_witness:
  "distinct (map fst [(''is_type'', PBool True)])
   \<and> distinct (map fst (filters wall_collector))
   \<and> filter_call demo_host [(''is_type'', PBool True)] wall_collector
       = (None, wall_types_collector)
   \<and> filter_call demo_host [(''is_type'', PBool True)] wall_types_collector
       = (None, wall_types_collector)
   \<and> elements wall_types_collector = [2, 4]"
proof -
  have a: "distinct (map fst [(''is_type'', PBool True)])" by simp
  have b: "distinct (map fst (filters wall_collector))" by (simp add: wall_collector_def)
  have c: "filter_call demo_host [(''is_type'', PBool True)] wall_collector
             = (None, wall_types_collector)"
    by (simp add: demo_host_def wall_collector_def wall_types_collector_def Let_def
        filter_call_def coerce_filter_values_def dict_get_def chain_def apply_filter_def
        getitem_def MAP_def invoke_def narrowing_def)
  have e: "elements wall_types_collector = [2, 4]" by (simp add: wall_types_collector_def)
  from filter_twice [OF a b c] a b c e show ?thesis by simp
qed

section \<open>Values of the wrong shape\<close>

text \<open>
  Claim C8, as stated, fails: the claim says that a \<open>parameter_filter\<close> value that is not a
  composite rule raises the type-mismatch exception. \<open>Collector(parameter_filter='x')\<close> falls
  through to the last branch of the chain and raises
  \<open>RPW_Exception('unknown parameter filter error: ...')\<close>, which is not \<open>RPW_TypeError\<close>.
\<close>

theorem parameter_filter_wrong_shape_counterexample:
  "Collector demo_host [(''parameter_filter'', PStr ''x'')]
    = Inl (RPW_Exception ''unknown parameter filter error: {}:{}''
             [PStr ''parameter_filter'', PStr ''x''])
   \<and> \<not> raises_RPW_TypeError (Collector demo_host [(''parameter_filter'', PStr ''x'')])"
  by (simp add: Collector_def resolve_scope_def demo_host_def Let_def
        filter_call_def coerce_filter_values_def dict_get_def chain_def apply_filter_def
        getitem_def MAP_def raises_RPW_TypeError_def)

text \<open>
  Claim C8, amended. For every supported filter key, a value of the wrong shape that is
  neither a boolean nor a \<open>ParameterFilter\<close> is rejected, by the loop body on any adapter,
  by the chain, and by the constructor: under \<open>symbol\<close> a value that is neither an element id
  nor a family symbol raises \<open>RPW_TypeError\<close>; under \<open>level\<close> and \<open>not_level\<close> a value that
  is neither an element id nor a level raises \<open>RPW_TypeError\<close>; under \<open>parameter_filter\<close>,
  \<open>is_type\<close>, \<open>is_not_type\<close> and \<open>is_view_independent\<close> the value raises \<open>RPW_Exception\<close>
  with the message \<open>unknown parameter filter error\<close>; under \<open>of_class\<close> and \<open>of_category\<close> a
  value that is neither a name nor the class or category handle is handed to the store's
  narrowing operation as it is, and the error is the store's own refusal of the call.
\<close>

theorem wrong_shape_errors:
  assumes "\<not> is_bool v" and "\<not> is_ParameterFilter v"
  shows "(\<not> is_ElementId v \<and> \<not> is_FamilySymbol v \<longrightarrow>
           rejects h d rest c ''symbol'' v
             (RPW_TypeError ''FamilySymbol or FamilySymbol Id'' (type_name v)))
       \<and> (\<not> is_ElementId v \<and> \<not> is_Level v \<longrightarrow>
           rejects h d rest c ''level'' v (RPW_TypeError ''Level or Level Id'' (type_name v))
         \<and> rejects h d rest c ''not_level'' v
               (RPW_TypeError ''Level or Level Id'' (type_name v)))
       \<and> rejects h d rest c ''parameter_filter'' v
             (RPW_Exception ''unknown parameter filter error: {}:{}''
                [PStr ''parameter_filter'', v])
       \<and> rejects h d rest c ''is_type'' v
             (RPW_Exception ''unknown parameter filter error: {}:{}'' [PStr ''is_type'', v])
       \<and> rejects h d rest c ''is_not_type'' v
             (RPW_Exception ''unknown parameter filter error: {}:{}'' [PStr ''is_not_type'', v])
       \<and> rejects h d rest c ''is_view_independent'' v
             (RPW_Exception ''unknown parameter filter error: {}:{}''
                [PStr ''is_view_independent'', v])
       \<and> (str_name v = None \<and> \<not> is_Type v \<longrightarrow>
           rejects h d rest c ''of_class'' v (TypeError ''OfClass''))
       \<and> (str_name v = None \<and> \<not> is_BuiltInCategory v \<longrightarrow>
           rejects h d rest c ''of_category'' v (TypeError ''OfCategory''))"
proof -
  note nb = assms
  have sy: "\<not> is_ElementId v \<and> \<not> is_FamilySymbol v \<longrightarrow>
           rejects h d rest c ''symbol'' v
             (RPW_TypeError ''FamilySymbol or FamilySymbol Id'' (type_name v))"
    using rejectsI[OF MAP_facts(6) _ symbol_step[OF nb]] by auto
  have lv: "\<not> is_ElementId v \<and> \<not> is_Level v \<longrightarrow>
           rejects h d rest c ''level'' v (RPW_TypeError ''Level or Level Id'' (type_name v))"
    using rejectsI[OF MAP_facts(7) _ level_step(1)[OF nb]] by auto
  have nl: "\<not> is_ElementId v \<and> \<not> is_Level v \<longrightarrow>
           rejects h d rest c ''not_level'' v
             (RPW_TypeError ''Level or Level Id'' (type_name v))"
    using rejectsI[OF MAP_facts(8) _ level_step(2)[OF nb]] by auto
  have pf: "rejects h d rest c ''parameter_filter'' v
             (RPW_Exception ''unknown parameter filter error: {}:{}''
                [PStr ''parameter_filter'', v])"
    using rejectsI[OF MAP_facts(9) _ fallthrough_step(1)[OF nb]] by auto
  have it: "rejects h d rest c ''is_type'' v
             (RPW_Exception ''unknown parameter filter error: {}:{}'' [PStr ''is_type'', v])"
    using rejectsI[OF MAP_facts(4) _ fallthrough_step(2)[OF nb]] by auto
  have nt: "rejects h d rest c ''is_not_type'' v
             (RPW_Exception ''unknown parameter filter error: {}:{}'' [PStr ''is_not_type'', v])"
    using rejectsI[OF MAP_facts(3) _ fallthrough_step(3)[OF nb]] by auto
  have vi: "rejects h d rest c ''is_view_independent'' v
             (RPW_Exception ''unknown parameter filter error: {}:{}''
                [PStr ''is_view_independent'', v])"
    using rejectsI[OF MAP_facts(5) _ fallthrough_step(4)[OF nb]] by auto
  have oc: "str_name v = None \<and> \<not> is_Type v \<longrightarrow>
           rejects h d rest c ''of_class'' v (TypeError ''OfClass'')"
    using rejectsI[OF MAP_facts(1) _ host_step(1)[OF nb]] by auto
  have og: "str_name v = None \<and> \<not> is_BuiltInCategory v \<longrightarrow>
           rejects h d rest c ''of_category'' v (TypeError ''OfCategory'')"
    using rejectsI[OF MAP_facts(2) _ host_step(2)[OF nb]] by auto
  from sy lv nl pf it nt vi oc og show ?thesis
    by blast
qed

theorem wrong_shape_errors_witness:
  "\<not> is_bool (PInt 5) \<and> \<not> is_ParameterFilter (PInt 5)
   \<and> Collector demo_host [(''symbol'', PInt 5)]
        = Inl (RPW_TypeError ''FamilySymbol or FamilySymbol Id'' ''int'')
   \<and> Collector demo_host [(''level'', PInt 5)]
        = Inl (RPW_TypeError ''Level or Level Id'' ''int'')
   \<and> Collector demo_host [(''not_level'', PInt 5)]
        = Inl (RPW_TypeError ''Level or Level Id'' ''int'')
   \<and> Collector demo_host [(''parameter_filter'', PInt 5)]
        = Inl (RPW_Exception ''unknown parameter filter error: {}:{}''
                 [PStr ''parameter_filter'', PInt 5])
   \<and> Collector demo_host [(''is_type'', PInt 5)]
        = Inl (RPW_Exception ''unknown parameter filter error: {}:{}''
                 [PStr ''is_type'', PInt 5])
   \<and> Collector demo_host [(''of_class'', PInt 5)] = Inl (TypeError ''OfClass'')
   \<and> Collector demo_host [(''of_category'', PInt 5)] = Inl (TypeError ''OfCategory'')
   \<and> chain demo_host (PDocument ''active'')
        [(''symbol'', PInt 5), (''is_type'', PBool True)] [1, 2, 3]
        = (Some (RPW_TypeError ''FamilySymbol or FamilySymbol Id'' ''int''), [1, 2, 3])"
  using wrong_shape_errors [of "PInt 5" demo_host "PDocument ''active''"
      "[(''is_type'', PBool True)]" "[1, 2, 3]"]
  by (simp add: rejects_def)

section \<open>Read views\<close>

text \<open>
  Claim C9, as stated, fails in the case it singles out: \<open>__iter__\<close> enumerates the wrapped
  adapter, not the cached list. \<open>Collector(view=v)\<close>, with a scope and no filter, never
  runs the filter; its cached list is empty while iteration yields the three elements of
  the view.
\<close>

theorem iter_unfiltered_counterexample:
  "Collector demo_host [(''view'', PView 1)] = Inr view_collector
   \<and> collector_iter view_collector = [1, 2, 3]
   \<and> elements view_collector = []"
  by (simp add: Collector_def resolve_scope_def demo_host_def Let_def view_collector_def
        collector_iter_def)

text \<open>
  Claim C9, amended. Size, emptiness and \<open>first\<close> read the cached list: its length, whether
  it is non-empty, and its first element or \<open>None\<close>. Iteration enumerates the wrapped
  adapter; it yields exactly the cached list after every \<open>.filter\<close> call that returns, and
  for every constructed collector whose filter set (the keywords left after the scope) is
  non-empty. For a collector constructed with an empty filter set the cached list is empty
  and iteration enumerates the whole scope.
\<close>

theorem read_views:
  "collector_len c = length (elements c)
   \<and> collector_bool c = (elements c \<noteq> [])
   \<and> first c = (if elements c = [] then None else Some (hd (elements c)))
   \<and> (filter_call h kw c = (None, c1) \<longrightarrow> collector_iter c1 = elements c1)
   \<and> (Collector h kw' = Inr c2 \<and> resolve_scope h kw' = Inr (d, sc, fs) \<longrightarrow>
        (if fs = [] then elements c2 = [] \<and> collector_iter c2 = scope_elements h sc
         else collector_iter c2 = elements c2))"
proof -
  have v: "first c = (if elements c = [] then None else Some (hd (elements c)))"
    by (cases "elements c") (simp_all add: first_def)
  have f: "filter_call h kw c = (None, c1) \<longrightarrow> collector_iter c1 = elements c1"
    by (simp add: collector_iter_def filter_call_iter)
  have k: "Collector h kw' = Inr c2 \<and> resolve_scope h kw' = Inr (d, sc, fs) \<longrightarrow>
        (if fs = [] then elements c2 = [] \<and> collector_iter c2 = scope_elements h sc
         else collector_iter c2 = elements c2)"
    by (auto simp add: Collector_def collector_iter_def Let_def filter_call_iter
          split: option.splits prod.splits)
  show ?thesis
    using v f k by (simp add: collector_len_def collector_bool_def)
qed

theorem read_views_witness:
  "filter_call demo_host [(''is_type'', PBool True)] wall_collector = (None, wall_types_collector)
   \<and> collector_iter wall_types_collector = elements wall_types_collector
   \<and> Collector demo_host [(''of_class'', PStr ''Wall'')] = Inr wall_collector
   \<and> resolve_scope demo_host [(''of_class'', PStr ''Wall'')]
       = Inr (PDocument ''active'', DocScope (PDocument ''active''), [(''of_class'', PStr ''Wall'')])
   \<and> collector_iter wall_collector = elements wall_collector
   \<and> first wall_collector = Some 1"
proof -
  have a: "filter_call demo_host [(''is_type'', PBool True)] wall_collector
             = (None, wall_types_collector)"
    by (simp add: demo_host_def wall_collector_def wall_types_collector_def Let_def
        filter_call_def coerce_filter_values_def dict_get_def chain_def apply_filter_def
        getitem_def MAP_def invoke_def narrowing_def)
  have b: "resolve_scope demo_host [(''of_class'', PStr ''Wall'')]
       = Inr (PDocument ''active'', DocScope (PDocument ''active''), [(''of_class'', PStr ''Wall'')])"
    by (simp add: resolve_scope_def demo_host_def Let_def)
  have c: "Collector demo_host [(''of_class'', PStr ''Wall'')] = Inr wall_collector"
    by (simp add: Collector_def resolve_scope_def demo_host_def wall_collector_def Let_def
        filter_call_def coerce_filter_values_def dict_get_def chain_def apply_filter_def
        getitem_def MAP_def invoke_def narrowing_def)
  have e: "elements wall_collector = [1, 2, 3, 4]"
    by (simp add: wall_collector_def)
  from read_views [of wall_collector demo_host "[(''is_type'', PBool True)]"
      wall_types_collector "[(''of_class'', PStr ''Wall'')]" wall_collector
      "PDocument ''active''" "DocScope (PDocument ''active'')" "[(''of_class'', PStr ''Wall'')]"]
  show ?thesis
    using a b c e by simp
qed

section \<open>Scope precedence\<close>

text \<open>
  Claim C5. The claim says that several scope arguments are resolved silently, the view
  first. The code pops only the scope key it chose; an \<open>elements\<close> key given beside a
  \<open>view\<close> stays among the filters and the key check rejects it:
  \<open>Collector(view=v, elements=[])\<close> raises
  \<open>RPW_Exception('Collector Filter not valid: elements')\<close>.
\<close>

theorem Collector_view_and_elements_raises:
  "Collector demo_host [(''view'', PView 1), (''elements'', PList [])]
     = Inl (RPW_Exception ''Collector Filter not valid: {}'' [PStr ''elements''])"
  by (simp add: Collector_def resolve_scope_def MAP_def Let_def demo_host_def)

end
